theory Spec2Isabelle
  imports Complex_Main "HOL-Library.AList"
begin

section \<open>Packets (packets.py)\<close>

text \<open>
  A packet carries its kind (the strings \<open>'BOM'\<close> and \<open>'RMS'\<close>), the id of the node that
  sent this copy, the sink id (\<open>None\<close> for a data packet with no sink assigned yet), the
  sequence number, the hop field, the originator and the creation time. Node ids are the
  natural numbers that \<open>SimulationEngine._create_nodes\<close> hands out; sequence numbers and
  hop fields are Python integers; simulated time is a real number.
\<close>

record packet =
  pkt_type :: string
  src :: nat
  sink_id :: "nat option"
  seq :: int
  hop_count :: int
  origin :: nat
  timestamp :: real

text \<open>\<open>Packet.__init__\<close>: the originator defaults to the sender when it is not given.\<close>

definition Packet ::
  "string \<Rightarrow> nat \<Rightarrow> nat option \<Rightarrow> int \<Rightarrow> int \<Rightarrow> nat option \<Rightarrow> real \<Rightarrow> packet" where
  "Packet ty sr sk sq hc orig ts =
     \<lparr>pkt_type = ty, src = sr, sink_id = sk, seq = sq, hop_count = hc,
      origin = (case orig of Some v \<Rightarrow> v | None \<Rightarrow> sr), timestamp = ts\<rparr>"

section \<open>The shared logger (logger.py)\<close>

text \<open>
  An entry of the event log is kept as the tuple (time, kind, source, destination) that
  \<open>log_event\<close> formats into a string; destination \<open>-1\<close> stands for a broadcast.
\<close>

type_synonym log_entry = "real \<times> string \<times> nat \<times> int"

record logger =
  control_sent :: nat
  data_sent :: nat
  data_delivered :: nat
  delays :: "real list"
  hops :: "int list"
  routing_updates :: nat
  entries :: "log_entry list"

definition Logger :: logger where
  "Logger = \<lparr>control_sent = 0, data_sent = 0, data_delivered = 0, delays = [], hops = [],
             routing_updates = 0, entries = []\<rparr>"

definition record_control_sent :: "logger \<Rightarrow> logger" where
  "record_control_sent lg = lg\<lparr>control_sent := control_sent lg + 1\<rparr>"

definition record_data_sent :: "logger \<Rightarrow> logger" where
  "record_data_sent lg = lg\<lparr>data_sent := data_sent lg + 1\<rparr>"

definition record_data_delivered :: "real \<Rightarrow> int \<Rightarrow> logger \<Rightarrow> logger" where
  "record_data_delivered latency hs lg =
     lg\<lparr>data_delivered := data_delivered lg + 1,
        delays := delays lg @ [latency],
        hops := hops lg @ [hs]\<rparr>"

definition record_routing_update :: "logger \<Rightarrow> logger" where
  "record_routing_update lg = lg\<lparr>routing_updates := routing_updates lg + 1\<rparr>"

definition log_event :: "real \<Rightarrow> string \<Rightarrow> nat \<Rightarrow> int \<Rightarrow> logger \<Rightarrow> logger" where
  "log_event time kind sr dst lg = lg\<lparr>entries := entries lg @ [(time, kind, sr, dst)]\<rparr>"

section \<open>Nodes (node.py)\<close>

text \<open>
  The protocol memory of a node. A reference to a neighbouring \<open>Node\<close> object is
  represented by the id of that node, which is also its index in \<open>engine.nodes\<close>. The
  routing table is a Python dictionary read in insertion order by \<open>min\<close>, so it is an
  association list kept with \<open>AList.update\<close> (a new key goes to the end, an existing key
  keeps its place). \<open>best_seq\<close> is only looked up by key and is a map; \<open>seen_rms\<close> is a set.
\<close>

type_synonym route = "nat \<times> int \<times> int"

record node =
  node_id :: nat
  is_sink :: bool
  is_mobile :: bool
  pos_x :: real
  pos_y :: real
  neighbors :: "nat list"
  routing_table :: "(nat option \<times> route) list"
  best_seq :: "nat option \<rightharpoonup> int"
  seen_rms :: "(nat \<times> int) set"
  seq_num :: int
  tx_count :: nat
  rx_count :: nat

definition MAX_HOPS :: int where
  "MAX_HOPS = 3"

text \<open>
  The delays of the scheduler: \<open>_broadcast\<close> and \<open>_deliver\<close> wait \<open>TX_DELAY\<close> before they
  send, and \<open>receive\<close> waits \<open>RX_DELAY\<close> before it handles the packet.
\<close>

definition TX_DELAY :: real where
  "TX_DELAY = 0.05"

definition RX_DELAY :: real where
  "RX_DELAY = 0.01"

text \<open>\<open>Node.__init__\<close>, without the processes it starts.\<close>

definition Node :: "nat \<Rightarrow> bool \<Rightarrow> bool \<Rightarrow> real \<times> real \<Rightarrow> node" where
  "Node i sink mobile init_pos =
     \<lparr>node_id = i, is_sink = sink, is_mobile = mobile,
      pos_x = fst init_pos, pos_y = snd init_pos, neighbors = [],
      routing_table = [], best_seq = Map.empty, seen_rms = {},
      seq_num = 0, tx_count = 0, rx_count = 0\<rparr>"

text \<open>
  What a handler hands to the scheduler with \<open>env.process\<close>: a broadcast or a unicast
  delivery of its own, to run after the transmission delay, or the reception of a copy
  by the neighbour named.
\<close>

datatype proc = Broadcast packet | Deliver nat packet | Receive nat packet

type_synonym nstate = "node \<times> logger"

subsection \<open>Beacon handling\<close>

text \<open>
  \<open>math.inf\<close> is the value \<open>None\<close> of an optional hop distance: every integer is below it.
\<close>

definition hop_less :: "int \<Rightarrow> int option \<Rightarrow> bool" where
  "hop_less h prev = (case prev of None \<Rightarrow> True | Some d \<Rightarrow> h < d)"

definition handle_bom :: "real \<Rightarrow> packet \<Rightarrow> nstate \<Rightarrow> nstate \<times> proc list" where
  "handle_bom now p st =
     (let n = fst st; lg = snd st;
          sink = sink_id p;
          sq = seq p;
          hop = hop_count p + 1;
          prev_seq = (case best_seq n sink of Some s \<Rightarrow> s | None \<Rightarrow> - 1);
          prev_entry = map_of (routing_table n) sink;
          prev_hop = (case prev_entry of Some e \<Rightarrow> Some (fst (snd e)) | None \<Rightarrow> None)
      in if sq > prev_seq \<or> hop_less hop prev_hop then
           let n1 = n\<lparr>routing_table := AList.update sink (src p, hop, sq) (routing_table n)\<rparr>;
               n2 = n1\<lparr>best_seq := (best_seq n1)(sink \<mapsto> sq)\<rparr>;
               lg1 = record_routing_update lg;
               lg2 = log_event now ''BOM_FWD'' (node_id n) (- 1) lg1;
               new_bom = Packet ''BOM'' (node_id n) sink sq hop (Some (origin p)) (timestamp p);
               lg3 = record_control_sent lg2
           in ((n2, lg3), [Broadcast new_bom])
         else (st, []))"

subsection \<open>Forwarding decision\<close>

text \<open>
  Python's \<open>min(items, key=...)\<close> scans in iteration order and keeps the first item whose
  key is strictly smaller than the best so far.
\<close>

fun min_by :: "('a \<Rightarrow> int) \<Rightarrow> 'a \<Rightarrow> 'a list \<Rightarrow> 'a" where
  "min_by key best [] = best"
| "min_by key best (x # xs) = min_by key (if key x < key best then x else best) xs"

definition send_rms :: "real \<Rightarrow> packet \<Rightarrow> nstate \<Rightarrow> nstate \<times> proc list" where
  "send_rms now p st =
     (let n = fst st; lg = snd st in
      case routing_table n of
        [] \<Rightarrow> ((n, log_event now ''RMS_BRD'' (node_id n) (- 1) lg), [Broadcast p])
      | kv # kvs \<Rightarrow>
          (let best = min_by (\<lambda>kv. fst (snd (snd kv))) kv kvs;
               sink = fst best;
               next_hop = fst (snd best);
               dist = fst (snd (snd best));
               p1 = p\<lparr>sink_id := sink\<rparr>;
               p2 = p1\<lparr>hop_count := dist + 1\<rparr>
           in case find (\<lambda>nb. nb = next_hop) (neighbors n) of
                Some nb \<Rightarrow>
                  ((n\<lparr>tx_count := tx_count n + 1\<rparr>,
                    log_event now ''RMS_UNI'' (node_id n) (int nb) lg),
                   [Deliver nb p2])
              | None \<Rightarrow>
                  ((n, log_event now ''RMS_BRD'' (node_id n) (- 1) lg), [Broadcast p2])))"

subsection \<open>Transmission, after the delay\<close>

fun broadcast_loop :: "packet \<Rightarrow> nat list \<Rightarrow> node \<Rightarrow> node \<times> proc list" where
  "broadcast_loop p [] n = (n, [])"
| "broadcast_loop p (nb # nbs) n =
     (let copy = Packet (pkt_type p) (node_id n) (sink_id p) (seq p) (hop_count p)
                   (Some (origin p)) (timestamp p);
          n1 = n\<lparr>tx_count := tx_count n + 1\<rparr>;
          r = broadcast_loop p nbs n1
      in (fst r, Receive nb copy # snd r))"

definition broadcast :: "packet \<Rightarrow> node \<Rightarrow> node \<times> proc list" where
  "broadcast p n = broadcast_loop p (neighbors n) n"

definition deliver :: "nat \<Rightarrow> packet \<Rightarrow> node \<Rightarrow> node \<times> proc list" where
  "deliver neighbor p n =
     (let copy = Packet (pkt_type p) (node_id n) (sink_id p) (seq p) (hop_count p)
                   (Some (origin p)) (timestamp p)
      in (n\<lparr>tx_count := tx_count n + 1\<rparr>, [Receive neighbor copy]))"

subsection \<open>Data handling and reception\<close>

definition handle_rms :: "real \<Rightarrow> packet \<Rightarrow> nstate \<Rightarrow> nstate \<times> proc list" where
  "handle_rms now p st =
     (let n = fst st; lg = snd st; key = (origin p, seq p) in
      if key \<in> seen_rms n then (st, [])
      else
        let n1 = n\<lparr>seen_rms := insert key (seen_rms n)\<rparr> in
        if is_sink n1 \<and> sink_id p = Some (node_id n1) then
          let latency = now - timestamp p;
              hops_traveled = hop_count p;
              lg1 = record_data_delivered latency hops_traveled lg;
              lg2 = log_event now ''RMS_DEL'' (src p) (int (node_id n1)) lg1
          in ((n1, lg2), [])
        else if hop_count p > 1 then
          send_rms now (p\<lparr>hop_count := hop_count p - 1\<rparr>) (n1, lg)
        else ((n1, lg), []))"

definition receive :: "real \<Rightarrow> packet \<Rightarrow> nstate \<Rightarrow> nstate \<times> proc list" where
  "receive now p st =
     (let n1 = (fst st)\<lparr>rx_count := rx_count (fst st) + 1\<rparr> in
      if pkt_type p = ''BOM'' then handle_bom now p (n1, snd st)
      else if pkt_type p = ''RMS'' then handle_rms now p (n1, snd st)
      else ((n1, snd st), []))"

subsection \<open>Origination\<close>

text \<open>One round of \<open>_sink_bom_process\<close> and of \<open>_generate_rms_process\<close>, after the timer.\<close>

definition sink_bom_round :: "real \<Rightarrow> nstate \<Rightarrow> nstate \<times> proc list" where
  "sink_bom_round now st =
     (let n1 = (fst st)\<lparr>seq_num := seq_num (fst st) + 1\<rparr>;
          bom = Packet ''BOM'' (node_id n1) (Some (node_id n1)) (seq_num n1) 0
                  (Some (node_id n1)) now;
          lg1 = record_control_sent (snd st);
          lg2 = log_event now ''BOM'' (node_id n1) (- 1) lg1
      in ((n1, lg2), [Broadcast bom]))"

definition generate_rms_round :: "real \<Rightarrow> nstate \<Rightarrow> nstate \<times> proc list" where
  "generate_rms_round now st =
     (let n1 = (fst st)\<lparr>seq_num := seq_num (fst st) + 1\<rparr>;
          rms = Packet ''RMS'' (node_id n1) None (seq_num n1) MAX_HOPS
                  (Some (node_id n1)) now;
          lg1 = record_data_sent (snd st);
          lg2 = log_event now ''RMS_GEN'' (node_id n1) (- 1) lg1
      in send_rms now rms (n1, lg2))"

subsection \<open>A node over simulated time\<close>

text \<open>
  Everything the scheduler can run on one node: a packet arrives (\<open>receive\<close>), a
  scheduled broadcast or unicast of the node resumes, a timer of the node fires, or the
  engine rewrites the neighbour list (\<open>update_neighbors\<close>). A run is a list of such
  events with the clock reading of each; it returns the final state and everything the
  node handed to the scheduler on the way.
\<close>

datatype event =
    Arrive packet
  | RunBroadcast packet
  | RunDeliver nat packet
  | BomTimer
  | RmsTimer
  | NewNeighbors "nat list"

fun node_step :: "real \<Rightarrow> event \<Rightarrow> nstate \<Rightarrow> nstate \<times> proc list" where
  "node_step now (Arrive p) st = receive now p st"
| "node_step now (RunBroadcast p) st =
     (let r = broadcast p (fst st) in ((fst r, snd st), snd r))"
| "node_step now (RunDeliver nb p) st =
     (let r = deliver nb p (fst st) in ((fst r, snd st), snd r))"
| "node_step now BomTimer st = sink_bom_round now st"
| "node_step now RmsTimer st = generate_rms_round now st"
| "node_step now (NewNeighbors nbs) st = (((fst st)\<lparr>neighbors := nbs\<rparr>, snd st), [])"

fun run :: "(real \<times> event) list \<Rightarrow> nstate \<Rightarrow> nstate \<times> proc list" where
  "run [] st = (st, [])"
| "run (te # tes) st =
     (let r1 = node_step (fst te) (snd te) st;
          r2 = run tes (fst r1)
      in (fst r2, snd r1 @ snd r2))"

subsection \<open>Observing a run\<close>

text \<open>
  The beacons a node accepts during a run, in order: an arriving \<open>'BOM'\<close> is accepted
  when handling it hands a rebroadcast to the scheduler (the branch of \<open>_handle_bom\<close> that
  also rewrites the routing table).
\<close>

fun accepted_boms :: "(real \<times> event) list \<Rightarrow> nstate \<Rightarrow> packet list" where
  "accepted_boms [] st = []"
| "accepted_boms (te # tes) st =
     (case snd te of
        Arrive p \<Rightarrow>
          (if pkt_type p = ''BOM'' \<and> snd (node_step (fst te) (snd te) st) \<noteq> [] then [p] else [])
      | _ \<Rightarrow> [])
     @ accepted_boms tes (fst (node_step (fst te) (snd te) st))"

definition for_pair :: "nat option \<Rightarrow> int \<Rightarrow> packet \<Rightarrow> bool" where
  "for_pair S q p = (sink_id p = S \<and> seq p = q)"

text \<open>
  What a node remembers about a sink: the best-seen sequence and the hop distance of its
  routing entry.
\<close>

definition route_view :: "nat option \<Rightarrow> nstate \<Rightarrow> int option \<times> int option" where
  "route_view S st =
     (best_seq (fst st) S, map_option (\<lambda>e. fst (snd e)) (map_of (routing_table (fst st)) S))"

text \<open>
  The copy that \<open>_broadcast\<close> and \<open>_deliver\<close> put on the air for a packet: the same
  fields, with the transmitting node as sender.
\<close>

definition on_air :: "node \<Rightarrow> packet \<Rightarrow> packet" where
  "on_air n q = Packet (pkt_type q) (node_id n) (sink_id q) (seq q) (hop_count q)
                  (Some (origin q)) (timestamp q)"


subsection \<open>Beacons under the scheduler\<close>

text \<open>
  The scheduler runs the events of a node in the order of their clock readings. A beacon
  is created by \<open>_sink_bom_process\<close> only, with hop count 0 and the clock reading of its
  creation as time stamp; the broadcast that carries it runs \<open>TX_DELAY\<close> later, each
  reception \<open>RX_DELAY\<close> after that, and a node that accepts a copy hands on a copy with the
  same stamp and the hop count raised by one. In exact arithmetic the copy with hop count
  \<open>h\<close> so arrives \<open>(h + 1) * (TX_DELAY + RX_DELAY)\<close> after the stamp (\<open>on_time\<close>).
  \<open>scheduler_order\<close> keeps the order that results, for the beacons that arrive in a run:
  the events are in the order of the clock; the stamps of the beacons of one sink are
  ordered as their sequence numbers are; and of two beacons of one sink, one that is not
  stamped later and has made fewer hops arrives earlier.
\<close>

fun beacon_arrivals :: "(real \<times> event) list \<Rightarrow> (real \<times> packet) list" where
  "beacon_arrivals [] = []"
| "beacon_arrivals (te # tes) =
     (case snd te of
        Arrive p \<Rightarrow> (if pkt_type p = ''BOM'' then [(fst te, p)] else [])
      | _ \<Rightarrow> [])
     @ beacon_arrivals tes"

definition on_time :: "real \<Rightarrow> packet \<Rightarrow> bool" where
  "on_time t p \<longleftrightarrow> t = timestamp p + (TX_DELAY + RX_DELAY) * (real_of_int (hop_count p) + 1)"

definition scheduler_order :: "(real \<times> event) list \<Rightarrow> bool" where
  "scheduler_order evs \<longleftrightarrow>
     sorted (map fst evs)
   \<and> (\<forall>tp \<in> set (beacon_arrivals evs). \<forall>tq \<in> set (beacon_arrivals evs).
        sink_id (snd tp) = sink_id (snd tq) \<longrightarrow>
          (seq (snd tp) \<le> seq (snd tq) \<longrightarrow> timestamp (snd tp) \<le> timestamp (snd tq))
        \<and> (timestamp (snd tp) \<le> timestamp (snd tq) \<and> hop_count (snd tp) < hop_count (snd tq)
              \<longrightarrow> fst tp < fst tq))"

text \<open>
  Where that order comes from. \<open>originated\<close> lists the beacons that a node creates in a
  run, each with the clock reading of its timer, and \<open>originated_all\<close> those of several
  nodes, each given by its state at the start and its run. \<open>flight obs t c\<close>: a copy \<open>c\<close>
  of one of the beacons \<open>obs\<close> arrives at some node at time \<open>t\<close>, sent by the broadcast of
  the beacon itself or of the copy that a node handed on when an earlier copy arrived.
\<close>

fun broadcasts :: "proc list \<Rightarrow> packet list" where
  "broadcasts [] = []"
| "broadcasts (Broadcast b # r) = b # broadcasts r"
| "broadcasts (_ # r) = broadcasts r"

fun originated :: "(real \<times> event) list \<Rightarrow> nstate \<Rightarrow> (real \<times> packet) list" where
  "originated [] st = []"
| "originated (te # tes) st =
     (if snd te = BomTimer
      then map (Pair (fst te)) (broadcasts (snd (node_step (fst te) (snd te) st)))
      else [])
     @ originated tes (fst (node_step (fst te) (snd te) st))"

definition originated_all :: "(nstate \<times> (real \<times> event) list) list \<Rightarrow> (real \<times> packet) list" where
  "originated_all hs = concat (map (\<lambda>h. originated (snd h) (fst h)) hs)"

inductive flight :: "(real \<times> packet) list \<Rightarrow> real \<Rightarrow> packet \<Rightarrow> bool"
  for obs :: "(real \<times> packet) list" where
  first: "tb \<in> set obs \<Longrightarrow> Receive nb c \<in> set (snd (broadcast (snd tb) n))
          \<Longrightarrow> flight obs (fst tb + TX_DELAY + RX_DELAY) c"
| relay: "flight obs t p \<Longrightarrow> pkt_type p = ''BOM'' \<Longrightarrow> snd (receive t p st) = [Broadcast b]
          \<Longrightarrow> Receive nb c \<in> set (snd (broadcast b n))
          \<Longrightarrow> flight obs (t + TX_DELAY + RX_DELAY) c"

text \<open>
  What a node holds for a sink is anchored in a list of beacons still to arrive when it
  holds nothing, or holds the sequence and the hop distance of a beacon that arrived at
  time \<open>t0\<close> and that none of them precedes: none arrives before \<open>t0\<close>, none that is not
  stamped later has made fewer hops, and their stamps are ordered as their sequence
  numbers are.
\<close>

definition anchored :: "nat option \<Rightarrow> nstate \<Rightarrow> (real \<times> packet) list \<Rightarrow> bool" where
  "anchored S st bs \<longleftrightarrow>
     route_view S st = (None, None)
   \<or> (\<exists>t0 (p0 :: packet). route_view S st = (Some (seq p0), Some (hop_count p0 + 1))
         \<and> (\<forall>tp \<in> set bs. sink_id (snd tp) = S \<longrightarrow>
               t0 \<le> fst tp
             \<and> (seq (snd tp) \<le> seq p0 \<longrightarrow> timestamp (snd tp) \<le> timestamp p0)
             \<and> (seq p0 \<le> seq (snd tp) \<longrightarrow> timestamp p0 \<le> timestamp (snd tp))
             \<and> (timestamp (snd tp) \<le> timestamp p0 \<and> hop_count (snd tp) < hop_count p0
                   \<longrightarrow> fst tp < t0)))"

section \<open>The engine (engine.py)\<close>

subsection \<open>Random numbers and geometry\<close>

text \<open>
  The generator behind \<open>random.uniform\<close> and \<open>random.choice\<close> is an oracle: the value
  that \<open>random.random()\<close> returns at each call (a real in \<open>[0, 1)\<close>), the raw number
  behind each index draw, and the count of calls made so far. \<open>uniform a b\<close> is
  \<open>a + (b - a) * random()\<close>; \<open>choice\<close> returns the element at an index below the
  length, and raises \<open>IndexError\<close> on an empty sequence.
\<close>

record rng =
  draws :: "nat \<Rightarrow> real"
  picks :: "nat \<Rightarrow> nat"
  used :: nat

datatype error = IndexError

definition uniform :: "real \<Rightarrow> real \<Rightarrow> rng \<Rightarrow> real \<times> rng" where
  "uniform a b g = (a + (b - a) * draws g (used g), g\<lparr>used := used g + 1\<rparr>)"

definition choice :: "'a list \<Rightarrow> rng \<Rightarrow> error + ('a \<times> rng)" where
  "choice xs g =
     (if xs = [] then Inl IndexError
      else Inr (xs ! (picks g (used g) mod length xs), g\<lparr>used := used g + 1\<rparr>))"

text \<open>Coordinates and distances are real numbers; \<open>math.hypot\<close> is the Euclidean norm.\<close>

definition hypot :: "real \<Rightarrow> real \<Rightarrow> real" where
  "hypot dx dy = sqrt (dx * dx + dy * dy)"

definition COMM_RANGE :: real where
  "COMM_RANGE = 30"

text \<open>\<open>max(0, min(bound, v))\<close>, the clipping of a coordinate to the area.\<close>

definition clip :: "real \<Rightarrow> real \<Rightarrow> real" where
  "clip bound v = max 0 (min bound v)"

subsection \<open>The engine and the placement of its nodes\<close>

text \<open>
  The fields of \<open>SimulationEngine\<close> that placement and repair read. A \<open>Node\<close> object is
  referred to by its index in \<open>nodes\<close>; \<open>node_map\<close> is that list read by id.
\<close>

record engine =
  mesh_count :: int
  mobile_count :: int
  width :: real
  height :: real
  MIN_DIST :: real
  sink_positions :: "(real \<times> real) list"
  nodes :: "node list"

text \<open>
  The inner loop over \<open>static_positions\<close> (here \<open>placed\<close>): the candidate is good when no placed static
  node is closer than \<open>MIN_DIST\<close>.
\<close>

definition good_position :: "real \<Rightarrow> (real \<times> real) list \<Rightarrow> real \<times> real \<Rightarrow> bool" where
  "good_position md placed xy =
     list_all (\<lambda>s. \<not> hypot (fst xy - fst s) (snd xy - snd s) < md) placed"

text \<open>The attempts of one sink, \<open>for attempt in range(50)\<close>, with the attempts left.\<close>

fun place_sink ::
  "nat \<Rightarrow> engine \<Rightarrow> real \<times> real \<Rightarrow> (real \<times> real) list \<Rightarrow> real \<times> real \<Rightarrow> rng
     \<Rightarrow> (real \<times> real) \<times> rng" where
  "place_sink 0 eng pos placed xy g = (xy, g)"
| "place_sink (Suc k) eng pos placed xy g =
     (if placed = [] then (xy, g)
      else if good_position (MIN_DIST eng) placed xy then (xy, g)
      else
        let jx = uniform (- MIN_DIST eng) (MIN_DIST eng) g;
            x = fst pos + fst jx;
            jy = uniform (- MIN_DIST eng) (MIN_DIST eng) (snd jx);
            y = snd pos + fst jy
        in place_sink k eng pos placed (clip (width eng) x, clip (height eng) y)
             (snd jy))"

text \<open>
  The state of \<open>_create_nodes\<close>: the nodes made so far, the positions of the static
  ones, the next id, and the generator.
\<close>

record creation =
  made :: "node list"
  static_positions :: "(real \<times> real) list"
  next_id :: nat
  gen :: rng

fun create_sinks :: "engine \<Rightarrow> (real \<times> real) list \<Rightarrow> creation \<Rightarrow> creation" where
  "create_sinks eng [] c = c"
| "create_sinks eng (pos # rest) c =
     (let r = place_sink 50 eng pos (static_positions c) pos (gen c);
          sink = Node (next_id c) True False (fst r)
      in create_sinks eng rest
           \<lparr>made = made c @ [sink], static_positions = static_positions c @ [fst r],
            next_id = next_id c + 1, gen = snd r\<rparr>)"

text \<open>
  Rejection sampling of one mesh node, \<open>for attempt in range(200)\<close>: the position found,
  or \<open>None\<close> when every attempt collided.
\<close>

fun sample_mesh ::
  "nat \<Rightarrow> real \<Rightarrow> real \<Rightarrow> real \<Rightarrow> (real \<times> real) list \<Rightarrow> rng \<Rightarrow> (real \<times> real) option \<times> rng" where
  "sample_mesh 0 x0 y0 md placed g = (None, g)"
| "sample_mesh (Suc k) x0 y0 md placed g =
     (let x = uniform x0 (x0 + 80) g;
          y = uniform y0 (y0 + 80) (snd x)
      in if good_position md placed (fst x, fst y) then (Some (fst x, fst y), snd y)
         else sample_mesh k x0 y0 md placed (snd y))"

definition place_mesh :: "engine \<Rightarrow> (real \<times> real) list \<Rightarrow> rng \<Rightarrow> error + ((real \<times> real) \<times> rng)" where
  "place_mesh eng placed g =
     (let x0 = (width eng - 80) / 2;
          y0 = (height eng - 80) / 2;
          r = sample_mesh 200 x0 y0 (MIN_DIST eng) placed g
      in case fst r of
           Some xy \<Rightarrow> Inr (xy, snd r)
         | None \<Rightarrow>
             (case choice placed (snd r) of
                Inl e \<Rightarrow> Inl e
              | Inr oc \<Rightarrow>
                  (let angle = uniform 0 (2 * pi) (snd oc);
                       x = fst (fst oc) + MIN_DIST eng * cos (fst angle);
                       y = snd (fst oc) + MIN_DIST eng * sin (fst angle)
                   in Inr ((clip (width eng) x, clip (height eng) y), snd angle))))"

fun create_mesh :: "engine \<Rightarrow> nat \<Rightarrow> creation \<Rightarrow> error + creation" where
  "create_mesh eng 0 c = Inr c"
| "create_mesh eng (Suc k) c =
     (case place_mesh eng (static_positions c) (gen c) of
        Inl e \<Rightarrow> Inl e
      | Inr r \<Rightarrow>
          (let mesh_node = Node (next_id c) False False (fst r)
           in create_mesh eng k
                \<lparr>made = made c @ [mesh_node], static_positions = static_positions c @ [fst r],
                 next_id = next_id c + 1, gen = snd r\<rparr>))"

fun create_mobile :: "engine \<Rightarrow> nat \<Rightarrow> creation \<Rightarrow> creation" where
  "create_mobile eng 0 c = c"
| "create_mobile eng (Suc k) c =
     (let x = uniform 0 (width eng) (gen c);
          y = uniform 0 (height eng) (snd x);
          mobile = Node (next_id c) False True (fst x, fst y)
      in create_mobile eng k (c\<lparr>made := made c @ [mobile], next_id := next_id c + 1,
                               gen := snd y\<rparr>))"

text \<open>\<open>range(n)\<close> of a Python integer runs \<open>nat n\<close> times: not at all when \<open>n\<close> is negative.\<close>

definition create_nodes :: "engine \<Rightarrow> rng \<Rightarrow> error + (engine \<times> rng)" where
  "create_nodes eng g =
     (let c1 = create_sinks eng (sink_positions eng)
                 \<lparr>made = nodes eng, static_positions = [], next_id = 0, gen = g\<rparr>
      in case create_mesh eng (nat (mesh_count eng)) c1 of
           Inl e \<Rightarrow> Inl e
         | Inr c2 \<Rightarrow>
             (let c3 = create_mobile eng (nat (mobile_count eng)) c2
              in Inr (eng\<lparr>nodes := made c3\<rparr>, gen c3)))"

subsection \<open>The neighbour graph\<close>

text \<open>
  The body of the double loop of \<open>update_neighbors\<close> for the pair \<open>i < j\<close>: when the two
  nodes are within range each is appended to the other's list.
\<close>

definition link :: "nat \<Rightarrow> nat \<Rightarrow> node list \<Rightarrow> node list" where
  "link i j ns =
     (let dx = pos_x (ns ! i) - pos_x (ns ! j);
          dy = pos_y (ns ! i) - pos_y (ns ! j);
          dist = hypot dx dy
      in if dist \<le> COMM_RANGE then
           let ns1 = ns[i := (ns ! i)\<lparr>neighbors := neighbors (ns ! i) @ [j]\<rparr>]
           in ns1[j := (ns1 ! j)\<lparr>neighbors := neighbors (ns1 ! j) @ [i]\<rparr>]
         else ns)"

definition update_neighbors :: "node list \<Rightarrow> node list" where
  "update_neighbors ns =
     fold (\<lambda>i acc. fold (link i) [i + 1 ..< length acc] acc) [0 ..< length ns]
       (map (\<lambda>n. n\<lparr>neighbors := []\<rparr>) ns)"

text \<open>
  The positions are Python floats. In the two definitions above the difference of two
  coordinates and \<open>math.hypot\<close> are exact; \<open>link_fp\<close> and \<open>update_neighbors_fp\<close> are the
  same loop with the two operations as the machine computes them, given as a parameter.
  \<open>exact\<close> is the arithmetic of the real numbers; \<open>double\<close> rounds the result of each
  operation to the nearest number with a significand of 53 bits, ties to even (overflow
  and subnormal numbers left out).
\<close>

record fpu =
  fsub :: "real \<Rightarrow> real \<Rightarrow> real"
  fhypot :: "real \<Rightarrow> real \<Rightarrow> real"

definition link_fp :: "fpu \<Rightarrow> nat \<Rightarrow> nat \<Rightarrow> node list \<Rightarrow> node list" where
  "link_fp ops i j ns =
     (let dx = fsub ops (pos_x (ns ! i)) (pos_x (ns ! j));
          dy = fsub ops (pos_y (ns ! i)) (pos_y (ns ! j));
          dist = fhypot ops dx dy
      in if dist \<le> COMM_RANGE then
           let ns1 = ns[i := (ns ! i)\<lparr>neighbors := neighbors (ns ! i) @ [j]\<rparr>]
           in ns1[j := (ns1 ! j)\<lparr>neighbors := neighbors (ns1 ! j) @ [i]\<rparr>]
         else ns)"

definition update_neighbors_fp :: "fpu \<Rightarrow> node list \<Rightarrow> node list" where
  "update_neighbors_fp ops ns =
     fold (\<lambda>i acc. fold (link_fp ops i) [i + 1 ..< length acc] acc) [0 ..< length ns]
       (map (\<lambda>n. n\<lparr>neighbors := []\<rparr>) ns)"

definition exact :: fpu where
  "exact = \<lparr>fsub = (\<lambda>a b. a - b), fhypot = hypot\<rparr>"

definition round_even :: "real \<Rightarrow> int" where
  "round_even y =
     (let n = \<lfloor>y\<rfloor>; r = y - of_int n
      in if r < 1 / 2 then n else if 1 / 2 < r then n + 1 else if even n then n else n + 1)"

definition round_double :: "real \<Rightarrow> real" where
  "round_double x =
     (if x = 0 then 0
      else let u = 2 powr (of_int \<lfloor>log 2 \<bar>x\<bar>\<rfloor> - 52)
           in of_int (round_even (x / u)) * u)"

definition double :: fpu where
  "double = \<lparr>fsub = (\<lambda>a b. round_double (a - b)),
             fhypot = (\<lambda>dx dy. round_double (hypot dx dy))\<rparr>"

subsection \<open>Connectivity repair\<close>

definition static_nodes :: "node list \<Rightarrow> nat list" where
  "static_nodes ns = filter (\<lambda>i. \<not> is_mobile (ns ! i)) [0 ..< length ns]"

text \<open>
  The attempts to move node \<open>i\<close> next to its anchor, \<open>for attempt in range(50)\<close>: the new
  position, or \<open>None\<close> when every attempt came closer than \<open>MIN_DIST\<close> to another static
  node.
\<close>

fun relocate_try ::
  "nat \<Rightarrow> engine \<Rightarrow> nat list \<Rightarrow> nat \<Rightarrow> nat \<Rightarrow> rng \<Rightarrow> (real \<times> real) option \<times> rng" where
  "relocate_try 0 eng static i anchor g = (None, g)"
| "relocate_try (Suc k) eng static i anchor g =
     (let ns = nodes eng;
          angle = uniform 0 (2 * pi) g;
          radius = COMM_RANGE * 0.8;
          new_x = clip (width eng) (pos_x (ns ! anchor) + radius * cos (fst angle));
          new_y = clip (height eng) (pos_y (ns ! anchor) + radius * sin (fst angle));
          good = list_all (\<lambda>other. node_id (ns ! other) = node_id (ns ! i)
                             \<or> \<not> hypot (new_x - pos_x (ns ! other)) (new_y - pos_y (ns ! other))
                                   < MIN_DIST eng) static
      in if good then (Some (new_x, new_y), snd angle)
         else relocate_try k eng static i anchor (snd angle))"

text \<open>
  The body of \<open>for node in static_nodes\<close> for the node at index \<open>i\<close>, on the engine, the
  flag \<open>changed\<close> and the generator.
\<close>

definition repair_node ::
  "nat list \<Rightarrow> nat \<Rightarrow> engine \<times> bool \<times> rng \<Rightarrow> error + (engine \<times> bool \<times> rng)" where
  "repair_node static i s =
     (let eng = fst s; changed = fst (snd s); g = snd (snd s); ns = nodes eng in
      if length (neighbors (ns ! i)) = 0 then
        let candidates = filter (\<lambda>n. node_id (ns ! n) \<noteq> node_id (ns ! i)) static in
        if candidates = [] then Inr s
        else
          case choice candidates g of
            Inl e \<Rightarrow> Inl e
          | Inr ac \<Rightarrow>
              (let anchor = fst ac;
                   r = relocate_try 50 eng static i anchor (snd ac)
               in case fst r of
                    Some xy \<Rightarrow>
                      Inr (eng\<lparr>nodes := ns[i := (ns ! i)\<lparr>pos_x := fst xy, pos_y := snd xy\<rparr>]\<rparr>,
                           True, snd r)
                  | None \<Rightarrow>
                      if \<not> changed then
                        let angle = uniform 0 (2 * pi) (snd r);
                            x = pos_x (ns ! anchor) + COMM_RANGE * cos (fst angle) * 0.99;
                            y = pos_y (ns ! anchor) + COMM_RANGE * sin (fst angle) * 0.99
                        in Inr (eng\<lparr>nodes := ns[i := (ns ! i)\<lparr>pos_x := clip (width eng) x,
                                                               pos_y := clip (height eng) y\<rparr>]\<rparr>,
                                True, snd angle)
                      else Inr (eng, changed, snd r))
      else Inr s)"

fun repair_pass ::
  "nat list \<Rightarrow> nat list \<Rightarrow> engine \<times> bool \<times> rng \<Rightarrow> error + (engine \<times> bool \<times> rng)" where
  "repair_pass static [] s = Inr s"
| "repair_pass static (i # rest) s =
     (case repair_node static i s of
        Inl e \<Rightarrow> Inl e
      | Inr s1 \<Rightarrow> repair_pass static rest s1)"

text \<open>
  The loop \<open>while changed\<close>: each round recomputes the neighbours and runs the body over
  the static nodes. It is a partial function: \<open>None\<close> is the loop that never stops.
\<close>

partial_function (option) ensure_loop ::
  "nat list \<Rightarrow> engine \<Rightarrow> rng \<Rightarrow> (error + (engine \<times> rng)) option" where
  "ensure_loop static eng g =
     (case repair_pass static static (eng\<lparr>nodes := update_neighbors (nodes eng)\<rparr>, False, g) of
        Inl e \<Rightarrow> Some (Inl e)
      | Inr s \<Rightarrow>
          if fst (snd s) then ensure_loop static (fst s) (snd (snd s))
          else Some (Inr (fst s, snd (snd s))))"

definition ensure_each_has_neighbor :: "engine \<Rightarrow> rng \<Rightarrow> (error + (engine \<times> rng)) option" where
  "ensure_each_has_neighbor eng g = ensure_loop (static_nodes (nodes eng)) eng g"

subsection \<open>Construction\<close>

text \<open>
  \<open>SimulationEngine.__init__\<close>: the arguments are stored as they are given, the nodes are
  placed, and the neighbour graph is computed, repaired and computed again.
\<close>

definition SimulationEngine ::
  "int \<Rightarrow> int \<Rightarrow> real \<Rightarrow> real \<Rightarrow> (real \<times> real) list option \<Rightarrow> real \<Rightarrow> rng
     \<Rightarrow> (error + (engine \<times> rng)) option" where
  "SimulationEngine num_mesh_nodes num_mobile_nodes area_width area_height sink_pos min_dist g =
     (let sp = (case sink_pos of
                  None \<Rightarrow> [(area_width * 0.33, area_height * 0.5),
                           (area_width * 0.66, area_height * 0.5)]
                | Some ps \<Rightarrow> ps);
          eng = \<lparr>mesh_count = num_mesh_nodes, mobile_count = num_mobile_nodes,
                 width = area_width, height = area_height, MIN_DIST = min_dist,
                 sink_positions = sp, nodes = []\<rparr>
      in case create_nodes eng g of
           Inl e \<Rightarrow> Some (Inl e)
         | Inr r1 \<Rightarrow>
             (case ensure_each_has_neighbor
                     ((fst r1)\<lparr>nodes := update_neighbors (nodes (fst r1))\<rparr>) (snd r1) of
                None \<Rightarrow> None
              | Some (Inl e) \<Rightarrow> Some (Inl e)
              | Some (Inr r2) \<Rightarrow>
                  Some (Inr ((fst r2)\<lparr>nodes := update_neighbors (nodes (fst r2))\<rparr>, snd r2))))"

text \<open>
  A Python integer is converted to a float when it meets one, and the conversion raises
  \<open>OverflowError\<close> beyond the range of a double (about \<open>1.8 * 10^308\<close>). The arguments of
  a call are representable when the dimensions, the minimum distance and the sink
  coordinates have magnitude at most \<open>10^300\<close>, so that every sum, difference and
  doubling that the constructor forms from them stays inside that range.
\<close>

definition within_double :: "real \<Rightarrow> bool" where
  "within_double v \<longleftrightarrow> \<bar>v\<bar> \<le> 10 ^ 300"

definition representable ::
  "real \<Rightarrow> real \<Rightarrow> (real \<times> real) list option \<Rightarrow> real \<Rightarrow> bool" where
  "representable area_width area_height sink_pos min_dist \<longleftrightarrow>
     within_double area_width \<and> within_double area_height \<and> within_double min_dist
     \<and> (case sink_pos of
           None \<Rightarrow> True
         | Some ps \<Rightarrow> list_all (\<lambda>xy. within_double (fst xy) \<and> within_double (snd xy)) ps)"

subsection \<open>Vocabulary for the neighbour graph\<close>



definition all_pairs :: "nat \<Rightarrow> nat list \<Rightarrow> (nat \<times> nat) list" where
  "all_pairs n is = concat (map (\<lambda>i. map (Pair i) [i + 1 ..< n]) is)"

text \<open>
  The same vocabulary for machine arithmetic: the distance that \<open>update_neighbors\<close>
  computes for the pair with node \<open>i\<close> first, and the loop body run over a list of pairs.
\<close>

definition measured :: "fpu \<Rightarrow> node list \<Rightarrow> nat \<Rightarrow> nat \<Rightarrow> real" where
  "measured ops ns i j =
     fhypot ops (fsub ops (pos_x (ns ! i)) (pos_x (ns ! j)))
                (fsub ops (pos_y (ns ! i)) (pos_y (ns ! j)))"

definition links_fp :: "fpu \<Rightarrow> (nat \<times> nat) list \<Rightarrow> node list \<Rightarrow> node list" where
  "links_fp ops ps ns = fold (\<lambda>p. link_fp ops (fst p) (snd p)) ps ns"

text \<open>The configuration that the constructor stores in an engine.\<close>

definition settings :: "engine \<Rightarrow> int \<times> int \<times> real \<times> real \<times> real" where
  "settings eng = (mesh_count eng, mobile_count eng, width eng, height eng, MIN_DIST eng)"

text \<open>The fields of a node that \<open>update_neighbors\<close> does not write.\<close>

definition unlinked :: "node \<Rightarrow> node" where
  "unlinked n = n\<lparr>neighbors := []\<rparr>"

subsection \<open>Vocabulary for connectivity repair\<close>





section \<open>Sample nodes and packets\<close>

definition relay5 :: node where
  "relay5 = (Node 5 False False (0, 0))\<lparr>neighbors := [4, 6]\<rparr>"

definition sink0 :: node where
  "sink0 = (Node 0 True False (0, 0))\<lparr>neighbors := [4, 6]\<rparr>"

definition bom_far :: packet where
  "bom_far = Packet ''BOM'' 4 (Some 0) 1 3 (Some 0) 20"

definition bom_stale :: packet where
  "bom_stale = Packet ''BOM'' 6 (Some 0) 4 1 (Some 0) 80"

text \<open>A relay that holds a three-hop route to sink 0 learnt from beacon 5.\<close>

definition relay5_routed :: node where
  "relay5_routed = relay5\<lparr>routing_table := [(Some 0, (4, 3, 5))],
                           best_seq := [Some 0 \<mapsto> 5]\<rparr>"

definition rms_via4 :: packet where
  "rms_via4 = Packet ''RMS'' 4 (Some 0) 7 2 (Some 9) 30"

definition rms_via6 :: packet where
  "rms_via6 = Packet ''RMS'' 6 (Some 0) 7 1 (Some 9) 30"

text \<open>A relay whose only route names a next hop that is not among its neighbours.\<close>

definition relay5_lost :: node where
  "relay5_lost = relay5\<lparr>routing_table := [(Some 0, (8, 2, 5)), (Some 1, (4, 3, 5))]\<rparr>"

text \<open>Five relays in a row, each with a five-hop route whose next hop is the next relay.\<close>

definition stale_relay :: "nat \<Rightarrow> real \<times> nstate" where
  "stale_relay i =
     (31, ((Node i False False (0, 0))\<lparr>neighbors := [i + 1],
                                        routing_table := [(Some 0, (i + 1, 5, 1))]\<rparr>, Logger))"

definition stale_path :: "(real \<times> nstate) list" where
  "stale_path = [stale_relay 10, stale_relay 11, stale_relay 12, stale_relay 13, stale_relay 14]"

definition plain_relay :: "nat \<Rightarrow> real \<times> nstate" where
  "plain_relay i = (31, ((Node i False False (0, 0))\<lparr>neighbors := [i + 1]\<rparr>, Logger))"

definition rms_fresh :: packet where
  "rms_fresh = Packet ''RMS'' 9 None 1 MAX_HOPS (Some 9) 30"

text \<open>The copy of the data packet \<open>rms_via4\<close> that reaches the sink through node 6.\<close>

definition rms_also6 :: packet where
  "rms_also6 = Packet ''RMS'' 6 (Some 0) 7 2 (Some 9) 30"

text \<open>
  The beacons of sink 0 at a relay, in scheduler order: beacon 1, created at time 20,
  arrives over two hops and then over three; beacon 2, created at time 40, arrives over
  three hops and then over four.
\<close>

definition early_run :: "(real \<times> event) list" where
  "early_run = [(0, NewNeighbors [4, 6]),
                (20.12, Arrive (Packet ''BOM'' 4 (Some 0) 1 1 (Some 0) 20)),
                (20.18, Arrive (Packet ''BOM'' 6 (Some 0) 1 2 (Some 0) 20))]"

definition late_run :: "(real \<times> event) list" where
  "late_run = [(40.18, Arrive (Packet ''BOM'' 6 (Some 0) 2 2 (Some 0) 40)),
               (40.24, Arrive (Packet ''BOM'' 4 (Some 0) 2 3 (Some 0) 40))]"

text \<open>
  The run of sink 0 that creates those two beacons, and a path of relays as a flood of
  beacon 1 leaves them: relay \<open>k\<close> has accepted the copy that relay \<open>k - 1\<close> (the sink for
  \<open>k = 1\<close>) handed on, and holds a route of \<open>k\<close> hops through it. The clock reading of each
  relay is the arrival time of a data packet that node 9, a neighbour of relay 4 without
  a route, creates at time 30.
\<close>

definition sink_history :: "nstate \<times> (real \<times> event) list" where
  "sink_history = ((Node 0 True False (100, 100), Logger),
                   [(0, NewNeighbors [4, 7]), (20, BomTimer), (40, BomTimer)])"



text \<open>Three static nodes: the first two 30 units apart, the third out of range.\<close>

definition node_at :: "nat \<Rightarrow> real \<Rightarrow> real \<Rightarrow> node" where
  "node_at i x y = Node i False False (x, y)"

definition three_nodes :: "node list" where
  "three_nodes = [node_at 0 0 0, node_at 1 18 24, node_at 2 100 0]"

text \<open>
  Two nodes just out of range of each other: 30 apart in \<open>x\<close> and \<open>2^-23\<close> apart in \<open>y\<close>,
  every coordinate being a double.
\<close>

definition close_pair :: "node list" where
  "close_pair = [node_at 0 30 (1 / 2 ^ 23), node_at 1 0 0]"

text \<open>
  A generator whose every draw is a quarter (so every random angle is a right angle) and
  whose every index draw is the first element; two sinks in an area of width \<open>-200\<close>.
\<close>

definition rng_quarter :: rng where
  "rng_quarter = \<lparr>draws = (\<lambda>_. 1 / 4), picks = (\<lambda>_. 0), used = 0\<rparr>"

definition sink_at :: "nat \<Rightarrow> real \<Rightarrow> real \<Rightarrow> nat list \<Rightarrow> node" where
  "sink_at i x y nbs = (Node i True False (x, y))\<lparr>neighbors := nbs\<rparr>"

definition two_sinks :: "real \<Rightarrow> real \<Rightarrow> real \<Rightarrow> real \<Rightarrow> nat list \<Rightarrow> nat list \<Rightarrow> engine" where
  "two_sinks x0 y0 x1 y1 n0 n1 = \<lparr>mesh_count = 0, mobile_count = 0, width = - 200, height = 200,
     MIN_DIST = 14, sink_positions = [(- 66, 100), (- 132, 100)],
     nodes = [sink_at 0 x0 y0 n0, sink_at 1 x1 y1 n1]\<rparr>"




section \<open>Facts about the handlers\<close>

lemma min_by_mem: "min_by key b xs \<in> set (b # xs)"
  by (induction xs arbitrary: b) auto

lemma min_by_le_best: "key (min_by key b xs) \<le> key b"
proof (induction xs arbitrary: b)
  case Nil
  show ?case by simp
next
  case (Cons x xs)
  have "key (min_by key (if key x < key b then x else b) xs)
          \<le> key (if key x < key b then x else b)"
    by (rule Cons.IH)
  then show ?case by (simp split: if_splits)
qed

lemma min_by_least: "y \<in> set (b # xs) \<Longrightarrow> key (min_by key b xs) \<le> key y"
proof (induction xs arbitrary: b)
  case Nil
  then show ?case by simp
next
  case (Cons x xs)
  let ?b' = "if key x < key b then x else b"
  have best: "key (min_by key ?b' xs) \<le> key ?b'"
    by (rule min_by_le_best)
  show ?case
  proof (cases "y \<in> set xs")
    case True
    then have "y \<in> set (?b' # xs)" by simp
    then show ?thesis using Cons.IH [of ?b'] by simp
  next
    case False
    with Cons.prems have "y = b \<or> y = x" by auto
    then show ?thesis using best by (auto split: if_splits)
  qed
qed

lemma find_eq: "find (\<lambda>nb. nb = a) xs = (if a \<in> set xs then Some a else None)"
  by (induction xs) auto

lemma broadcast_loop_tx:
  "tx_count (fst (broadcast_loop p nbs n)) = tx_count n + length nbs"
  by (induction nbs arbitrary: n) (auto simp: Let_def)

lemma broadcast_loop_out:
  "snd (broadcast_loop p nbs n) =
     map (\<lambda>nb. Receive nb (Packet (pkt_type p) (node_id n) (sink_id p) (seq p) (hop_count p)
                              (Some (origin p)) (timestamp p))) nbs"
proof (induction nbs arbitrary: n)
  case Nil
  show ?case by simp
next
  case (Cons nb nbs)
  have "node_id (n\<lparr>tx_count := tx_count n + 1\<rparr>) = node_id n" by simp
  with Cons.IH [of "n\<lparr>tx_count := tx_count n + 1\<rparr>"] show ?case
    by (simp add: Let_def)
qed

lemma broadcast_loop_memory:
  "routing_table (fst (broadcast_loop p nbs n)) = routing_table n
   \<and> best_seq (fst (broadcast_loop p nbs n)) = best_seq n
   \<and> seen_rms (fst (broadcast_loop p nbs n)) = seen_rms n"
  by (induction nbs arbitrary: n) (auto simp: Let_def)

lemma send_rms_memory:
  "routing_table (fst (fst (send_rms now p st))) = routing_table (fst st)
   \<and> best_seq (fst (fst (send_rms now p st))) = best_seq (fst st)
   \<and> seen_rms (fst (fst (send_rms now p st))) = seen_rms (fst st)
   \<and> data_delivered (snd (fst (send_rms now p st))) = data_delivered (snd st)"
  by (simp add: send_rms_def Let_def find_eq log_event_def split: list.splits)

lemma handle_rms_tables:
  "routing_table (fst (fst (handle_rms now p st))) = routing_table (fst st)
   \<and> best_seq (fst (fst (handle_rms now p st))) = best_seq (fst st)"
  by (simp add: handle_rms_def Let_def send_rms_memory)

lemma handle_rms_seen_mono: "seen_rms (fst st) \<subseteq> seen_rms (fst (fst (handle_rms now p st)))"
  by (auto simp: handle_rms_def Let_def send_rms_memory)

lemma handle_bom_seen: "seen_rms (fst (fst (handle_bom now p st))) = seen_rms (fst st)"
  by (simp add: handle_bom_def Let_def)

lemma node_step_seen_mono: "seen_rms (fst st) \<subseteq> seen_rms (fst (fst (node_step now ev st)))"
proof (cases ev)
  case (Arrive p)
  have "seen_rms (fst st) \<subseteq>
          seen_rms (fst (fst (handle_rms now p ((fst st)\<lparr>rx_count := rx_count (fst st) + 1\<rparr>, snd st))))"
    using handle_rms_seen_mono [of "((fst st)\<lparr>rx_count := rx_count (fst st) + 1\<rparr>, snd st)" now p]
    by simp
  with Arrive show ?thesis
    by (simp add: receive_def Let_def handle_bom_seen)
next
  case (RunBroadcast p)
  then show ?thesis by (simp add: broadcast_def Let_def broadcast_loop_memory)
next
  case (RunDeliver nb p)
  then show ?thesis by (simp add: deliver_def Let_def)
next
  case BomTimer
  then show ?thesis by (simp add: sink_bom_round_def Let_def)
next
  case RmsTimer
  then show ?thesis by (simp add: generate_rms_round_def Let_def send_rms_memory)
next
  case (NewNeighbors nbs)
  then show ?thesis by simp
qed

lemma run_seen_mono: "seen_rms (fst st) \<subseteq> seen_rms (fst (fst (run evs st)))"
proof (induction evs arbitrary: st)
  case Nil
  show ?case by simp
next
  case (Cons te tes)
  have "seen_rms (fst st) \<subseteq> seen_rms (fst (fst (node_step (fst te) (snd te) st)))"
    by (rule node_step_seen_mono)
  also have "\<dots> \<subseteq> seen_rms (fst (fst (run tes (fst (node_step (fst te) (snd te) st)))))"
    by (rule Cons.IH)
  finally show ?case by (simp add: Let_def)
qed

lemmas samples = relay5_def sink0_def bom_far_def bom_stale_def relay5_routed_def
  rms_via4_def rms_via6_def relay5_lost_def stale_relay_def stale_path_def plain_relay_def
  rms_fresh_def Node_def Packet_def Logger_def MAX_HOPS_def

section \<open>Beacon acceptance rule\<close>

text \<open>
  C1. A beacon for sink \<open>S\<close> is accepted exactly when its sequence is strictly greater
  than the best-seen sequence for \<open>S\<close> (\<open>-1\<close> when absent) or its hop distance after
  the increment is strictly smaller than the hop distance of the current entry (no entry
  counts as infinity). When accepted, the entry for \<open>S\<close> becomes (sender, incremented
  hop, sequence) and one beacon with the same origin and sequence and the incremented hop
  is handed over for broadcast; when rejected, the node and the logger are unchanged and
  nothing is handed over.
\<close>

theorem handle_bom_rule:
  fixes n :: node and p :: packet
  defines "accept \<equiv>
     seq p > (case best_seq n (sink_id p) of Some s \<Rightarrow> s | None \<Rightarrow> - 1)
     \<or> (case map_of (routing_table n) (sink_id p) of
           None \<Rightarrow> True | Some e \<Rightarrow> hop_count p + 1 < fst (snd e))"
  shows "(accept \<longrightarrow>
            (\<exists>n' lg' b. handle_bom now p (n, lg) = ((n', lg'), [Broadcast b])
               \<and> map_of (routing_table n') (sink_id p) = Some (src p, hop_count p + 1, seq p)
               \<and> (\<forall>k. k \<noteq> sink_id p \<longrightarrow>
                      map_of (routing_table n') k = map_of (routing_table n) k)
               \<and> pkt_type b = ''BOM'' \<and> src b = node_id n \<and> sink_id b = sink_id p
               \<and> origin b = origin p \<and> seq b = seq p
               \<and> hop_count b = hop_count p + 1 \<and> timestamp b = timestamp p))
       \<and> (\<not> accept \<longrightarrow> handle_bom now p (n, lg) = ((n, lg), []))"
  unfolding accept_def
  by (auto simp: handle_bom_def hop_less_def Let_def Packet_def update_conv'
           split: option.splits)

theorem handle_bom_rule_witness:
  "(\<exists>n' lg' b. handle_bom 20 bom_far (relay5, Logger) = ((n', lg'), [Broadcast b])
      \<and> map_of (routing_table n') (Some 0) = Some (4, 4, 1)
      \<and> origin b = 0 \<and> seq b = 1 \<and> hop_count b = 4)
   \<and> handle_bom 81 bom_stale (relay5_routed, Logger) \<noteq> ((relay5_routed, Logger), [])
   \<and> handle_bom 20 bom_far (relay5_routed, Logger) = ((relay5_routed, Logger), [])"
  using handle_bom_rule [where p = bom_far and n = relay5 and now = 20 and lg = Logger]
        handle_bom_rule [where p = bom_stale and n = relay5_routed and now = 81 and lg = Logger]
        handle_bom_rule [where p = bom_far and n = relay5_routed and now = 20 and lg = Logger]
  by (auto simp: samples)

section \<open>Beacons under the scheduler\<close>

lemma node_step_tables:
  "\<forall>p. ev = Arrive p \<longrightarrow> pkt_type p \<noteq> ''BOM''
   \<Longrightarrow> routing_table (fst (fst (node_step t ev st))) = routing_table (fst st)
     \<and> best_seq (fst (fst (node_step t ev st))) = best_seq (fst st)"
proof (cases ev)
  case (Arrive p)
  assume "\<forall>p. ev = Arrive p \<longrightarrow> pkt_type p \<noteq> ''BOM''"
  with Arrive have "pkt_type p \<noteq> ''BOM''" by simp
  with Arrive show ?thesis
    using handle_rms_tables [of t p "((fst st)\<lparr>rx_count := rx_count (fst st) + 1\<rparr>, snd st)"]
    by (simp add: receive_def Let_def)
next
  case (RunBroadcast p)
  then show ?thesis by (simp add: broadcast_def Let_def broadcast_loop_memory)
next
  case (RunDeliver nb p)
  then show ?thesis by (simp add: deliver_def Let_def)
next
  case BomTimer
  then show ?thesis by (simp add: sink_bom_round_def Let_def)
next
  case RmsTimer
  then show ?thesis by (simp add: generate_rms_round_def Let_def send_rms_memory)
next
  case (NewNeighbors nbs)
  then show ?thesis by simp
qed

lemma receive_bom_view:
  assumes "pkt_type p = ''BOM''"
  shows "(snd (receive t p st) \<noteq> [] \<and> sink_id p = S
            \<longrightarrow> route_view S (fst (receive t p st)) = (Some (seq p), Some (hop_count p + 1))
              \<and> (\<forall>h. route_view S st = (Some (seq p), Some h) \<longrightarrow> hop_count p + 1 < h))
       \<and> (\<not> (snd (receive t p st) \<noteq> [] \<and> sink_id p = S)
            \<longrightarrow> route_view S (fst (receive t p st)) = route_view S st)"
  using assms
  by (auto simp: receive_def handle_bom_def hop_less_def route_view_def Let_def update_conv'
           split: option.splits)

lemma node_step_view:
  "(\<exists>p. snd te = Arrive p \<and> pkt_type p = ''BOM'' \<and> snd (node_step (fst te) (snd te) st) \<noteq> []
         \<and> sink_id p = S)
   \<or> route_view S (fst (node_step (fst te) (snd te) st)) = route_view S st"
proof (cases "\<exists>p. snd te = Arrive p \<and> pkt_type p = ''BOM''")
  case True
  then obtain p where p: "snd te = Arrive p" "pkt_type p = ''BOM''" by blast
  then show ?thesis
    using receive_bom_view [of p "fst te" st S] by auto
next
  case False
  then have "\<forall>p. snd te = Arrive p \<longrightarrow> pkt_type p \<noteq> ''BOM''" by blast
  then show ?thesis
    using node_step_tables [of "snd te" "fst te" st] by (simp add: route_view_def)
qed

lemma beacon_arrivals_append:
  "beacon_arrivals (xs @ ys) = beacon_arrivals xs @ beacon_arrivals ys"
  by (induction xs) auto

lemma beacon_arrivals_time: "tp \<in> set (beacon_arrivals evs) \<Longrightarrow> fst tp \<in> fst ` set evs"
  by (induction evs) (auto split: event.splits if_splits)

lemma scheduler_order_tail: "scheduler_order (te # tes) \<Longrightarrow> scheduler_order tes"
  by (simp add: scheduler_order_def)

lemma scheduler_order_append: "scheduler_order (xs @ ys) \<Longrightarrow> scheduler_order ys"
  by (induction xs) (auto dest: scheduler_order_tail)

lemma run_append:
  "run (xs @ ys) st = (fst (run ys (fst (run xs st))), snd (run xs st) @ snd (run ys (fst (run xs st))))"
  by (induction xs arbitrary: st) (simp_all add: Let_def)

lemma receive_bom_accept:
  assumes "pkt_type p = ''BOM''" and "snd (receive t p st) \<noteq> []"
      and "route_view (sink_id p) st = (Some q, Some h)"
  shows "q < seq p \<or> hop_count p + 1 < h"
  using assms
  by (auto simp: receive_def handle_bom_def hop_less_def route_view_def Let_def
           split: option.splits if_splits)

lemma anchored_step:
  assumes so: "scheduler_order (te # tes)"
      and a: "anchored S st (beacon_arrivals (te # tes))"
  shows "anchored S (fst (node_step (fst te) (snd te) st)) (beacon_arrivals tes)
       \<and> (\<forall>q. best_seq (fst st) S = Some q \<longrightarrow>
            (\<exists>q'. best_seq (fst (fst (node_step (fst te) (snd te) st))) S = Some q' \<and> q \<le> q'))
       \<and> (\<forall>p. snd te = Arrive p \<and> pkt_type p = ''BOM'' \<and> sink_id p = S
               \<and> snd (node_step (fst te) (snd te) st) \<noteq> []
             \<longrightarrow> best_seq (fst (fst (node_step (fst te) (snd te) st))) S = Some (seq p)
               \<and> (\<forall>q. best_seq (fst st) S = Some q \<longrightarrow> q < seq p))"
proof (cases "\<exists>p. snd te = Arrive p \<and> pkt_type p = ''BOM''
                  \<and> snd (node_step (fst te) (snd te) st) \<noteq> [] \<and> sink_id p = S")
  case False
  then have same: "route_view S (fst (node_step (fst te) (snd te) st)) = route_view S st"
    using node_step_view [of te st S] by blast
  have sub: "set (beacon_arrivals tes) \<subseteq> set (beacon_arrivals (te # tes))"
    by auto
  have "anchored S (fst (node_step (fst te) (snd te) st)) (beacon_arrivals tes)"
    using a sub unfolding anchored_def same by (meson subsetD)
  moreover have "best_seq (fst (fst (node_step (fst te) (snd te) st))) S = best_seq (fst st) S"
    using same by (simp add: route_view_def)
  ultimately show ?thesis using False by auto
next
  case True
  then obtain p where p: "snd te = Arrive p" "pkt_type p = ''BOM''"
      "snd (node_step (fst te) (snd te) st) \<noteq> []" "sink_id p = S"
    by blast
  let ?t = "fst te"
  let ?st1 = "fst (node_step (fst te) (snd te) st)"
  have mem: "(?t, p) \<in> set (beacon_arrivals (te # tes))"
    using p by simp
  have later: "?t \<le> fst tp" if "tp \<in> set (beacon_arrivals tes)" for tp
  proof -
    from that have "fst tp \<in> fst ` set tes" by (rule beacon_arrivals_time)
    with so show ?thesis by (auto simp: scheduler_order_def)
  qed
  have pair: "(seq (snd tp) \<le> seq (snd tq) \<longrightarrow> timestamp (snd tp) \<le> timestamp (snd tq))
        \<and> (timestamp (snd tp) \<le> timestamp (snd tq) \<and> hop_count (snd tp) < hop_count (snd tq)
              \<longrightarrow> fst tp < fst tq)"
    if "tp \<in> set (beacon_arrivals (te # tes))" "tq \<in> set (beacon_arrivals (te # tes))"
       "sink_id (snd tp) = sink_id (snd tq)" for tp tq
    using so that unfolding scheduler_order_def by blast
  have view1: "route_view S ?st1 = (Some (seq p), Some (hop_count p + 1))"
    using receive_bom_view [of p ?t st S] p by simp
  have anch: "anchored S ?st1 (beacon_arrivals tes)"
  proof -
    have "\<forall>tp \<in> set (beacon_arrivals tes). sink_id (snd tp) = S \<longrightarrow>
               ?t \<le> fst tp
             \<and> (seq (snd tp) \<le> seq p \<longrightarrow> timestamp (snd tp) \<le> timestamp p)
             \<and> (seq p \<le> seq (snd tp) \<longrightarrow> timestamp p \<le> timestamp (snd tp))
             \<and> (timestamp (snd tp) \<le> timestamp p \<and> hop_count (snd tp) < hop_count p
                   \<longrightarrow> fst tp < ?t)"
    proof (intro ballI impI)
      fix tp assume tp: "tp \<in> set (beacon_arrivals tes)" and s: "sink_id (snd tp) = S"
      have tp': "tp \<in> set (beacon_arrivals (te # tes))" using tp by simp
      have s1: "sink_id (snd tp) = sink_id (snd (?t, p))" using s p by simp
      have s2: "sink_id (snd (?t, p)) = sink_id (snd tp)" using s p by simp
      from later [OF tp] pair [OF tp' mem s1] pair [OF mem tp' s2]
      show "?t \<le> fst tp
             \<and> (seq (snd tp) \<le> seq p \<longrightarrow> timestamp (snd tp) \<le> timestamp p)
             \<and> (seq p \<le> seq (snd tp) \<longrightarrow> timestamp p \<le> timestamp (snd tp))
             \<and> (timestamp (snd tp) \<le> timestamp p \<and> hop_count (snd tp) < hop_count p
                   \<longrightarrow> fst tp < ?t)"
        by simp
    qed
    with view1 show ?thesis unfolding anchored_def by blast
  qed
  have above: "q < seq p" if q: "best_seq (fst st) S = Some q" for q
  proof (rule ccontr)
    assume "\<not> q < seq p"
    then have le: "seq p \<le> q" by simp
    from q have "route_view S st \<noteq> (None, None)" by (simp add: route_view_def)
    with a obtain t0 and p0 :: packet
      where v: "route_view S st = (Some (seq p0), Some (hop_count p0 + 1))"
        and g: "\<forall>tp \<in> set (beacon_arrivals (te # tes)). sink_id (snd tp) = S \<longrightarrow>
               t0 \<le> fst tp
             \<and> (seq (snd tp) \<le> seq p0 \<longrightarrow> timestamp (snd tp) \<le> timestamp p0)
             \<and> (seq p0 \<le> seq (snd tp) \<longrightarrow> timestamp p0 \<le> timestamp (snd tp))
             \<and> (timestamp (snd tp) \<le> timestamp p0 \<and> hop_count (snd tp) < hop_count p0
                   \<longrightarrow> fst tp < t0)"
      unfolding anchored_def by blast
    from v q have q0: "q = seq p0" by (simp add: route_view_def)
    from g mem p have g1: "t0 \<le> ?t"
        and g2: "seq p \<le> seq p0 \<longrightarrow> timestamp p \<le> timestamp p0"
        and g3: "timestamp p \<le> timestamp p0 \<and> hop_count p < hop_count p0 \<longrightarrow> ?t < t0"
      by auto
    have "seq p0 < seq p \<or> hop_count p + 1 < hop_count p0 + 1"
      using receive_bom_accept [of p ?t st "seq p0" "hop_count p0 + 1"] p v by simp
    with le q0 have "hop_count p < hop_count p0" by simp
    with g2 g3 le q0 have "?t < t0" by simp
    with g1 show False by simp
  qed
  have b1: "best_seq (fst ?st1) S = Some (seq p)"
    using view1 by (simp add: route_view_def)
  have "\<forall>q. best_seq (fst st) S = Some q \<longrightarrow>
            (\<exists>q'. best_seq (fst ?st1) S = Some q' \<and> q \<le> q')"
    using above b1 by fastforce
  moreover have "\<forall>p'. snd te = Arrive p' \<and> pkt_type p' = ''BOM'' \<and> sink_id p' = S
               \<and> snd (node_step (fst te) (snd te) st) \<noteq> []
             \<longrightarrow> best_seq (fst ?st1) S = Some (seq p')
               \<and> (\<forall>q. best_seq (fst st) S = Some q \<longrightarrow> q < seq p')"
    using above b1 p by auto
  ultimately show ?thesis using anch by blast
qed

lemma anchored_run:
  "scheduler_order (xs @ ys) \<Longrightarrow> anchored S st (beacon_arrivals (xs @ ys))
   \<Longrightarrow> anchored S (fst (run xs st)) (beacon_arrivals ys)"
proof (induction xs arbitrary: st)
  case Nil
  then show ?case by simp
next
  case (Cons te tes)
  have "anchored S (fst (node_step (fst te) (snd te) st)) (beacon_arrivals (tes @ ys))"
    using anchored_step [of te "tes @ ys" S st] Cons.prems by simp
  moreover have "scheduler_order (tes @ ys)"
    using Cons.prems scheduler_order_tail [of te "tes @ ys"] by simp
  ultimately show ?case
    using Cons.IH [of "fst (node_step (fst te) (snd te) st)"] by (simp add: Let_def)
qed

lemma best_seq_run_mono:
  "scheduler_order evs \<Longrightarrow> anchored S st (beacon_arrivals evs)
   \<Longrightarrow> best_seq (fst st) S = Some q
   \<Longrightarrow> \<exists>q'. best_seq (fst (fst (run evs st))) S = Some q' \<and> q \<le> q'"
proof (induction evs arbitrary: st q)
  case Nil
  then show ?case by simp
next
  case (Cons te tes)
  let ?st1 = "fst (node_step (fst te) (snd te) st)"
  from anchored_step [OF Cons.prems(1) Cons.prems(2)] Cons.prems(3)
  obtain q1 where a1: "anchored S ?st1 (beacon_arrivals tes)"
      and q1: "best_seq (fst ?st1) S = Some q1" "q \<le> q1"
    by blast
  have "scheduler_order tes" using Cons.prems(1) by (rule scheduler_order_tail)
  from Cons.IH [OF this a1 q1(1)] obtain q' where
    "best_seq (fst (fst (run tes ?st1))) S = Some q'" "q1 \<le> q'" by blast
  with q1 show ?case by (auto simp: Let_def)
qed

lemma anchored_Node: "anchored S (Node i sink mobile pos, lg) bs"
  by (simp add: anchored_def route_view_def Node_def)

lemma accepted_once:
  "scheduler_order evs \<Longrightarrow> anchored S st (beacon_arrivals evs)
   \<Longrightarrow> length (filter (for_pair S q) (accepted_boms evs st)) \<le> 1
     \<and> (\<forall>q'. best_seq (fst st) S = Some q' \<and> q \<le> q'
           \<longrightarrow> filter (for_pair S q) (accepted_boms evs st) = [])"
proof (induction evs arbitrary: st)
  case Nil
  show ?case by simp
next
  case (Cons te tes)
  let ?st1 = "fst (node_step (fst te) (snd te) st)"
  let ?rest = "filter (for_pair S q) (accepted_boms tes ?st1)"
  note step = anchored_step [OF Cons.prems(1) Cons.prems(2)]
  have so: "scheduler_order tes" using Cons.prems(1) by (rule scheduler_order_tail)
  from step have a1: "anchored S ?st1 (beacon_arrivals tes)" by blast
  note ih = Cons.IH [OF so a1]
  show ?case
  proof (cases "\<exists>p. snd te = Arrive p \<and> pkt_type p = ''BOM''
                  \<and> snd (node_step (fst te) (snd te) st) \<noteq> [] \<and> sink_id p = S")
    case False
    then have same: "route_view S ?st1 = route_view S st"
      using node_step_view [of te st S] by blast
    then have b: "best_seq (fst ?st1) S = best_seq (fst st) S"
      by (simp add: route_view_def)
    have acc: "filter (for_pair S q) (accepted_boms (te # tes) st) = ?rest"
      using False by (auto simp: for_pair_def split: event.splits)
    show ?thesis unfolding acc using ih b by simp
  next
    case True
    then obtain p where p: "snd te = Arrive p" "pkt_type p = ''BOM''"
        "snd (node_step (fst te) (snd te) st) \<noteq> []" "sink_id p = S"
      by blast
    from step p have b1: "best_seq (fst ?st1) S = Some (seq p)"
        and above: "\<forall>q'. best_seq (fst st) S = Some q' \<longrightarrow> q' < seq p"
      by blast+
    show ?thesis
    proof (cases "seq p = q")
      case True
      have "?rest = []" using ih b1 True by simp
      moreover have "filter (for_pair S q) (accepted_boms (te # tes) st) = p # ?rest"
        using p True by (simp add: for_pair_def)
      ultimately show ?thesis using above True by auto
    next
      case False
      have acc: "filter (for_pair S q) (accepted_boms (te # tes) st) = ?rest"
        using p False by (simp add: for_pair_def)
      have "?rest = []" if "best_seq (fst st) S = Some q'" "q \<le> q'" for q'
      proof -
        from above that have "q \<le> seq p" by fastforce
        with ih b1 show ?thesis by simp
      qed
      then show ?thesis unfolding acc using ih by blast
    qed
  qed
qed

text \<open>
  The order that \<open>scheduler_order\<close> asks for is the one that the code produces: the beacons
  that a node originates have growing sequence numbers and time stamps, every flight of
  a beacon is on time, and so a run in the order of the clock whose beacons are flights
  of the beacons of sinks with different ids is in scheduler order.
\<close>

lemma node_step_id: "node_id (fst (fst (node_step t ev st))) = node_id (fst st)"
proof (cases ev)
  case (Arrive p)
  then show ?thesis
    by (simp add: receive_def handle_bom_def handle_rms_def send_rms_def Let_def find_eq
             split: list.splits)
next
  case (RunBroadcast p)
  have "node_id (fst (broadcast_loop p nbs n)) = node_id n" for nbs n
    by (induction nbs arbitrary: n) (auto simp: Let_def)
  with RunBroadcast show ?thesis by (simp add: broadcast_def Let_def)
next
  case (RunDeliver nb p)
  then show ?thesis by (simp add: deliver_def Let_def)
next
  case BomTimer
  then show ?thesis by (simp add: sink_bom_round_def Let_def)
next
  case RmsTimer
  then show ?thesis
    by (simp add: generate_rms_round_def send_rms_def Let_def find_eq split: list.splits)
next
  case (NewNeighbors nbs)
  then show ?thesis by simp
qed

lemma node_step_seq_num: "seq_num (fst st) \<le> seq_num (fst (fst (node_step t ev st)))"
proof (cases ev)
  case (Arrive p)
  then show ?thesis
    by (simp add: receive_def handle_bom_def handle_rms_def send_rms_def Let_def find_eq
             split: list.splits)
next
  case (RunBroadcast p)
  have "seq_num (fst (broadcast_loop p nbs n)) = seq_num n" for nbs n
    by (induction nbs arbitrary: n) (auto simp: Let_def)
  with RunBroadcast show ?thesis by (simp add: broadcast_def Let_def)
next
  case (RunDeliver nb p)
  then show ?thesis by (simp add: deliver_def Let_def)
next
  case BomTimer
  then show ?thesis by (simp add: sink_bom_round_def Let_def)
next
  case RmsTimer
  then show ?thesis
    by (simp add: generate_rms_round_def send_rms_def Let_def find_eq split: list.splits)
next
  case (NewNeighbors nbs)
  then show ?thesis by simp
qed

lemma originated_head:
  "(if ev = BomTimer then map (Pair t) (broadcasts (snd (node_step t ev st))) else [])
     = (if ev = BomTimer
        then [(t, Packet ''BOM'' (node_id (fst st)) (Some (node_id (fst st)))
                    (seq_num (fst st) + 1) 0 (Some (node_id (fst st))) t)]
        else [])"
  by (simp add: sink_bom_round_def Let_def)

lemma originated_facts:
  "sorted (map fst evs) \<Longrightarrow> tb \<in> set (originated evs st)
   \<Longrightarrow> pkt_type (snd tb) = ''BOM'' \<and> sink_id (snd tb) = Some (node_id (fst st))
     \<and> hop_count (snd tb) = 0 \<and> timestamp (snd tb) = fst tb
     \<and> seq_num (fst st) < seq (snd tb) \<and> fst tb \<in> fst ` set evs"
proof (induction evs arbitrary: st)
  case Nil
  then show ?case by simp
next
  case (Cons te tes)
  let ?st1 = "fst (node_step (fst te) (snd te) st)"
  from Cons.prems(2) consider
      (head) "snd te = BomTimer"
        "tb = (fst te, Packet ''BOM'' (node_id (fst st)) (Some (node_id (fst st)))
                    (seq_num (fst st) + 1) 0 (Some (node_id (fst st))) (fst te))"
    | (tail) "tb \<in> set (originated tes ?st1)"
    by (auto simp: originated_head split: if_splits)
  then show ?case
  proof cases
    case head
    then show ?thesis by (simp add: Packet_def)
  next
    case tail
    from Cons.prems(1) have "sorted (map fst tes)" by simp
    from Cons.IH [OF this tail] show ?thesis
      using node_step_id [of "fst te" "snd te" st] node_step_seq_num [of st "fst te" "snd te"]
      by auto
  qed
qed

lemma originated_sorted:
  "sorted (map fst evs)
   \<Longrightarrow> sorted_wrt (\<lambda>a b. seq (snd a) < seq (snd b) \<and> fst a \<le> fst b) (originated evs st)"
proof (induction evs arbitrary: st)
  case Nil
  show ?case by simp
next
  case (Cons te tes)
  let ?st1 = "fst (node_step (fst te) (snd te) st)"
  from Cons.prems have st: "sorted (map fst tes)" and le: "\<forall>t \<in> fst ` set tes. fst te \<le> t"
    by auto
  have ih: "sorted_wrt (\<lambda>a b. seq (snd a) < seq (snd b) \<and> fst a \<le> fst b) (originated tes ?st1)"
    using st by (rule Cons.IH)
  show ?case
  proof (cases "snd te = BomTimer")
    case False
    then show ?thesis using ih by (simp add: originated_head)
  next
    case True
    have "seq_num (fst st) + 1 < seq (snd tb) \<and> fst te \<le> fst tb"
      if "tb \<in> set (originated tes ?st1)" for tb
    proof -
      have "seq_num (fst ?st1) = seq_num (fst st) + 1"
        using True by (simp add: sink_bom_round_def Let_def)
      with originated_facts [OF st that] le show ?thesis by auto
    qed
    moreover have "originated (te # tes) st
        = (fst te, Packet ''BOM'' (node_id (fst st)) (Some (node_id (fst st)))
                    (seq_num (fst st) + 1) 0 (Some (node_id (fst st))) (fst te))
          # originated tes ?st1"
      using True originated_head [of "snd te" "fst te" st] by simp
    ultimately show ?thesis using ih by (simp add: Packet_def)
  qed
qed

lemma sorted_wrt_pair:
  "sorted_wrt R xs \<Longrightarrow> x \<in> set xs \<Longrightarrow> y \<in> set xs \<Longrightarrow> x = y \<or> R x y \<or> R y x"
  by (induction xs) auto

lemma originated_mono:
  assumes "sorted (map fst evs)" and "a \<in> set (originated evs st)" and "b \<in> set (originated evs st)"
      and "seq (snd a) \<le> seq (snd b)"
  shows "timestamp (snd a) \<le> timestamp (snd b)"
proof -
  have "a = b \<or> (seq (snd a) < seq (snd b) \<and> fst a \<le> fst b)
          \<or> (seq (snd b) < seq (snd a) \<and> fst b \<le> fst a)"
    using sorted_wrt_pair [OF originated_sorted [OF assms(1)] assms(2) assms(3)] .
  with assms(4) have "fst a \<le> fst b" by auto
  then show ?thesis
    using originated_facts [OF assms(1) assms(2)] originated_facts [OF assms(1) assms(3)] by simp
qed

lemma originated_all_mono:
  assumes srt: "\<forall>h \<in> set hs. sorted (map fst (snd h))"
      and ids: "distinct (map (\<lambda>h. node_id (fst (fst h))) hs)"
      and a: "a \<in> set (originated_all hs)" and b: "b \<in> set (originated_all hs)"
      and s: "sink_id (snd a) = sink_id (snd b)" and le: "seq (snd a) \<le> seq (snd b)"
  shows "timestamp (snd a) \<le> timestamp (snd b)"
proof -
  from a obtain ha where ha: "ha \<in> set hs" "a \<in> set (originated (snd ha) (fst ha))"
    by (auto simp: originated_all_def)
  from b obtain hb where hb: "hb \<in> set hs" "b \<in> set (originated (snd hb) (fst hb))"
    by (auto simp: originated_all_def)
  from srt ha hb have sa: "sorted (map fst (snd ha))" and sb: "sorted (map fst (snd hb))"
    by auto
  have "sink_id (snd a) = Some (node_id (fst (fst ha)))"
    using originated_facts [OF sa ha(2)] by simp
  moreover have "sink_id (snd b) = Some (node_id (fst (fst hb)))"
    using originated_facts [OF sb hb(2)] by simp
  ultimately have "node_id (fst (fst ha)) = node_id (fst (fst hb))"
    using s by simp
  with ids ha(1) hb(1) have "ha = hb"
    by (meson distinct_map inj_onD)
  with originated_mono [OF sb _ hb(2) le] ha(2) show ?thesis by simp
qed

lemma flight_source:
  assumes "flight obs t c"
      and "\<forall>tb \<in> set obs. pkt_type (snd tb) = ''BOM'' \<and> hop_count (snd tb) = 0
              \<and> timestamp (snd tb) = fst tb"
  shows "pkt_type c = ''BOM'' \<and> on_time t c
       \<and> (\<exists>tb \<in> set obs. sink_id c = sink_id (snd tb) \<and> seq c = seq (snd tb)
              \<and> timestamp c = timestamp (snd tb))"
  using assms
proof (induction rule: flight.induct)
  case (first tb nb c n)
  then have c: "c = on_air n (snd tb)"
    by (auto simp: broadcast_def broadcast_loop_out on_air_def)
  from first have "pkt_type (snd tb) = ''BOM''" "hop_count (snd tb) = 0" "timestamp (snd tb) = fst tb"
    by auto
  then have "pkt_type c = ''BOM'' \<and> on_time (fst tb + TX_DELAY + RX_DELAY) c"
    by (simp add: c on_air_def Packet_def on_time_def)
  moreover have "sink_id c = sink_id (snd tb) \<and> seq c = seq (snd tb)
              \<and> timestamp c = timestamp (snd tb)"
    by (simp add: c on_air_def Packet_def)
  ultimately show ?case using first.hyps(1) by blast
next
  case (relay t p st b nb c n)
  then have c: "c = on_air n b"
    by (auto simp: broadcast_def broadcast_loop_out on_air_def)
  from relay have ih: "on_time t p"
      "\<exists>tb \<in> set obs. sink_id p = sink_id (snd tb) \<and> seq p = seq (snd tb)
              \<and> timestamp p = timestamp (snd tb)"
    by blast+
  from relay.hyps(2,3) have b: "b = Packet ''BOM'' (node_id (fst st)) (sink_id p) (seq p)
                                  (hop_count p + 1) (Some (origin p)) (timestamp p)"
    by (auto simp: receive_def handle_bom_def Let_def split: if_splits)
  have "pkt_type c = ''BOM'' \<and> on_time (t + TX_DELAY + RX_DELAY) c"
    using ih(1) by (simp add: c b on_air_def Packet_def on_time_def algebra_simps)
  moreover have "sink_id c = sink_id p \<and> seq c = seq p \<and> timestamp c = timestamp p"
    by (simp add: c b on_air_def Packet_def)
  ultimately show ?case using ih(2) by auto
qed

lemma on_time_order:
  assumes "on_time t p" and "on_time t' p'"
      and "timestamp p \<le> timestamp p'" and "hop_count p < hop_count p'"
  shows "t < t'"
proof -
  have "real_of_int (hop_count p) + 1 < real_of_int (hop_count p') + 1"
    using assms(4) by simp
  then have "(TX_DELAY + RX_DELAY) * (real_of_int (hop_count p) + 1)
               < (TX_DELAY + RX_DELAY) * (real_of_int (hop_count p') + 1)"
    by (simp add: TX_DELAY_def RX_DELAY_def)
  with assms(1,2,3) show ?thesis by (simp add: on_time_def)
qed

lemma flights_in_order:
  assumes srt: "\<forall>h \<in> set hs. sorted (map fst (snd h))"
      and ids: "distinct (map (\<lambda>h. node_id (fst (fst h))) hs)"
      and evs: "sorted (map fst evs)"
      and fl: "\<forall>tp \<in> set (beacon_arrivals evs). flight (originated_all hs) (fst tp) (snd tp)"
  shows "scheduler_order evs"
proof -
  have obs: "\<forall>tb \<in> set (originated_all hs). pkt_type (snd tb) = ''BOM'' \<and> hop_count (snd tb) = 0
              \<and> timestamp (snd tb) = fst tb"
  proof
    fix tb assume "tb \<in> set (originated_all hs)"
    then obtain h where h: "h \<in> set hs" "tb \<in> set (originated (snd h) (fst h))"
      by (auto simp: originated_all_def)
    with srt have "sorted (map fst (snd h))" by auto
    from originated_facts [OF this h(2)]
    show "pkt_type (snd tb) = ''BOM'' \<and> hop_count (snd tb) = 0 \<and> timestamp (snd tb) = fst tb"
      by simp
  qed
  have src: "pkt_type (snd tp) = ''BOM'' \<and> on_time (fst tp) (snd tp)
       \<and> (\<exists>tb \<in> set (originated_all hs). sink_id (snd tp) = sink_id (snd tb)
              \<and> seq (snd tp) = seq (snd tb) \<and> timestamp (snd tp) = timestamp (snd tb))"
    if "tp \<in> set (beacon_arrivals evs)" for tp
    using flight_source [OF _ obs] fl that by blast
  have stamps: "timestamp (snd tp) \<le> timestamp (snd tq)"
    if tp: "tp \<in> set (beacon_arrivals evs)" and tq: "tq \<in> set (beacon_arrivals evs)"
       and s: "sink_id (snd tp) = sink_id (snd tq)" and le: "seq (snd tp) \<le> seq (snd tq)"
    for tp tq
  proof -
    from src [OF tp] obtain a where a: "a \<in> set (originated_all hs)"
        "sink_id (snd tp) = sink_id (snd a)" "seq (snd tp) = seq (snd a)"
        "timestamp (snd tp) = timestamp (snd a)" by blast
    from src [OF tq] obtain b where b: "b \<in> set (originated_all hs)"
        "sink_id (snd tq) = sink_id (snd b)" "seq (snd tq) = seq (snd b)"
        "timestamp (snd tq) = timestamp (snd b)" by blast
    have "timestamp (snd a) \<le> timestamp (snd b)"
      using originated_all_mono [OF srt ids a(1) b(1)] a b s le by simp
    with a b show ?thesis by simp
  qed
  have times: "fst tp < fst tq"
    if "tp \<in> set (beacon_arrivals evs)" "tq \<in> set (beacon_arrivals evs)"
       "timestamp (snd tp) \<le> timestamp (snd tq)" "hop_count (snd tp) < hop_count (snd tq)"
    for tp tq
    using on_time_order [of "fst tp" "snd tp" "fst tq" "snd tq"] src that by blast
  from stamps times evs show ?thesis unfolding scheduler_order_def by blast
qed

text \<open>
  The sample run is such a run: its beacons are flights of the two beacons of sink 0.
\<close>

lemma flight_first_hop:
  assumes "tb \<in> set obs" and "nb \<in> set (neighbors n)"
  shows "flight obs (fst tb + TX_DELAY + RX_DELAY) (on_air n (snd tb))"
proof -
  have "Receive nb (on_air n (snd tb)) \<in> set (snd (broadcast (snd tb) n))"
    using assms(2) by (simp add: broadcast_def broadcast_loop_out on_air_def)
  with assms(1) show ?thesis by (rule flight.first)
qed

lemma flight_next_hop:
  assumes "flight obs t p" and "pkt_type p = ''BOM''"
  shows "flight obs (t + TX_DELAY + RX_DELAY)
           (Packet ''BOM'' i (sink_id p) (seq p) (hop_count p + 1) (Some (origin p)) (timestamp p))"
proof -
  let ?b = "Packet ''BOM'' i (sink_id p) (seq p) (hop_count p + 1) (Some (origin p)) (timestamp p)"
  let ?n = "(Node i False False (0, 0))\<lparr>neighbors := [0]\<rparr>"
  have r: "snd (receive t p (Node i False False (0, 0), Logger)) = [Broadcast ?b]"
    using assms(2) by (simp add: receive_def handle_bom_def hop_less_def Let_def Node_def)
  have "Receive 0 (on_air ?n ?b) \<in> set (snd (broadcast ?b ?n))"
    by (simp add: broadcast_def on_air_def Let_def)
  moreover have "on_air ?n ?b = ?b"
    by (simp add: on_air_def Packet_def Node_def)
  ultimately have "Receive 0 ?b \<in> set (snd (broadcast ?b ?n))" by simp
  with assms r show ?thesis by (rule flight.relay)
qed

lemma sink_history_beacons:
  "originated_all [sink_history]
     = [(20, Packet ''BOM'' 0 (Some 0) 1 0 (Some 0) 20), (40, Packet ''BOM'' 0 (Some 0) 2 0 (Some 0) 40)]"
  by (simp add: originated_all_def sink_history_def sink_bom_round_def Let_def Node_def Packet_def)

lemma sample_flight:
  assumes "q = 1 \<and> ts = 20 \<or> q = 2 \<and> ts = 40"
  shows "flight (originated_all [sink_history]) (ts + 2 * (TX_DELAY + RX_DELAY))
           (Packet ''BOM'' i (Some 0) q 1 (Some 0) ts)"
    and "flight (originated_all [sink_history]) (ts + 3 * (TX_DELAY + RX_DELAY))
           (Packet ''BOM'' j (Some 0) q 2 (Some 0) ts)"
    and "flight (originated_all [sink_history]) (ts + 4 * (TX_DELAY + RX_DELAY))
           (Packet ''BOM'' k (Some 0) q 3 (Some 0) ts)"
proof -
  let ?obs = "originated_all [sink_history]"
  let ?n0 = "(Node 0 True False (100, 100))\<lparr>neighbors := [4, 7]\<rparr>"
  have mem: "(ts, Packet ''BOM'' 0 (Some 0) q 0 (Some 0) ts) \<in> set ?obs"
    using assms by (auto simp: sink_history_beacons)
  have "flight ?obs (ts + TX_DELAY + RX_DELAY) (on_air ?n0 (Packet ''BOM'' 0 (Some 0) q 0 (Some 0) ts))"
    using flight_first_hop [OF mem, of 4 ?n0] by simp
  then have f0: "flight ?obs (ts + TX_DELAY + RX_DELAY) (Packet ''BOM'' 0 (Some 0) q 0 (Some 0) ts)"
    by (simp add: on_air_def Packet_def Node_def)
  have f1: "flight ?obs (ts + TX_DELAY + RX_DELAY + TX_DELAY + RX_DELAY)
              (Packet ''BOM'' i (Some 0) q 1 (Some 0) ts)" for i
    using flight_next_hop [OF f0, of i] by (simp add: Packet_def)
  have f2: "flight ?obs (ts + TX_DELAY + RX_DELAY + TX_DELAY + RX_DELAY + TX_DELAY + RX_DELAY)
              (Packet ''BOM'' i (Some 0) q 2 (Some 0) ts)" for i
    using flight_next_hop [OF f1 [of 7], of i] by (simp add: Packet_def)
  have f3: "flight ?obs (ts + TX_DELAY + RX_DELAY + TX_DELAY + RX_DELAY + TX_DELAY + RX_DELAY
                           + TX_DELAY + RX_DELAY)
              (Packet ''BOM'' i (Some 0) q 3 (Some 0) ts)" for i
    using flight_next_hop [OF f2 [of 8], of i] by (simp add: Packet_def)
  show "flight ?obs (ts + 2 * (TX_DELAY + RX_DELAY)) (Packet ''BOM'' i (Some 0) q 1 (Some 0) ts)"
    using f1 [of i] by (simp add: algebra_simps)
  show "flight ?obs (ts + 3 * (TX_DELAY + RX_DELAY)) (Packet ''BOM'' j (Some 0) q 2 (Some 0) ts)"
    using f2 [of j] by (simp add: algebra_simps)
  show "flight ?obs (ts + 4 * (TX_DELAY + RX_DELAY)) (Packet ''BOM'' k (Some 0) q 3 (Some 0) ts)"
    using f3 [of k] by (simp add: algebra_simps)
qed

lemma sample_run_flights:
  "\<forall>tp \<in> set (beacon_arrivals (early_run @ late_run)).
     flight (originated_all [sink_history]) (fst tp) (snd tp)"
proof -
  have t: "(20.12 :: real) = 20 + 2 * (TX_DELAY + RX_DELAY)"
          "(20.18 :: real) = 20 + 3 * (TX_DELAY + RX_DELAY)"
          "(40.18 :: real) = 40 + 3 * (TX_DELAY + RX_DELAY)"
          "(40.24 :: real) = 40 + 4 * (TX_DELAY + RX_DELAY)"
    by (simp_all add: TX_DELAY_def RX_DELAY_def)
  have "flight (originated_all [sink_history]) 20.12 (Packet ''BOM'' 4 (Some 0) 1 1 (Some 0) 20)"
       "flight (originated_all [sink_history]) 20.18 (Packet ''BOM'' 6 (Some 0) 1 2 (Some 0) 20)"
       "flight (originated_all [sink_history]) 40.18 (Packet ''BOM'' 6 (Some 0) 2 2 (Some 0) 40)"
       "flight (originated_all [sink_history]) 40.24 (Packet ''BOM'' 4 (Some 0) 2 3 (Some 0) 40)"
    unfolding t by (rule sample_flight, simp)+
  then show ?thesis
    by (simp add: early_run_def late_run_def Packet_def)
qed

lemma sample_run_order: "scheduler_order (early_run @ late_run)"
proof (rule flights_in_order [of "[sink_history]"])
  show "\<forall>h \<in> set [sink_history]. sorted (map fst (snd h))"
    by (simp add: sink_history_def)
  show "distinct (map (\<lambda>h. node_id (fst (fst h))) [sink_history])"
    by simp
  show "sorted (map fst (early_run @ late_run))"
    by (simp add: early_run_def late_run_def)
  show "\<forall>tp \<in> set (beacon_arrivals (early_run @ late_run)).
          flight (originated_all [sink_history]) (fst tp) (snd tp)"
    by (rule sample_run_flights)
qed

section \<open>Best-seen sequence\<close>

text \<open>
  C2. The sequence recorded in \<open>best_seq\<close> for a sink never decreases over simulated
  time: for every node that starts from its initial state and every run in scheduler
  order, a sequence recorded for a sink after a part of the run is followed, after every
  longer part, by a recorded sequence at least as large. (The acceptance test would let a
  copy with an older sequence win over a shorter path; under the scheduler such a copy
  has arrived before the newer beacon did.)
\<close>

theorem best_seq_monotone:
  assumes "scheduler_order (evs1 @ evs2)"
      and "best_seq (fst (fst (run evs1 (Node i sink mobile pos, lg)))) S = Some q1"
  shows "\<exists>q2. best_seq (fst (fst (run (evs1 @ evs2) (Node i sink mobile pos, lg)))) S = Some q2
            \<and> q1 \<le> q2"
proof -
  let ?st1 = "fst (run evs1 (Node i sink mobile pos, lg))"
  have "anchored S ?st1 (beacon_arrivals evs2)"
    using assms(1) anchored_Node by (rule anchored_run)
  moreover have "scheduler_order evs2"
    using assms(1) by (rule scheduler_order_append)
  ultimately have "\<exists>q'. best_seq (fst (fst (run evs2 ?st1))) S = Some q' \<and> q1 \<le> q'"
    using assms(2) by (intro best_seq_run_mono)
  then show ?thesis by (simp add: run_append)
qed

theorem best_seq_monotone_witness:
  "scheduler_order (early_run @ late_run)
   \<and> best_seq (fst (fst (run early_run (Node 5 False False (0, 0), Logger)))) (Some 0) = Some 1
   \<and> best_seq (fst (fst (run (early_run @ late_run) (Node 5 False False (0, 0), Logger)))) (Some 0)
       = Some 2"
proof -
  have a: "best_seq (fst (fst (run early_run (Node 5 False False (0, 0), Logger)))) (Some 0) = Some 1"
    by code_simp
  have b: "best_seq (fst (fst (run (early_run @ late_run) (Node 5 False False (0, 0), Logger))))
             (Some 0) = Some 2"
    by code_simp
  from a b sample_run_order best_seq_monotone [OF sample_run_order a] show ?thesis by simp
qed

section \<open>One acceptance for each beacon\<close>

text \<open>
  C3. Over a whole run in scheduler order, a node that starts from its initial state
  accepts, and therefore rebroadcasts, at most one beacon for each pair of a sink and a
  sequence number.
\<close>

theorem beacon_accepted_once:
  assumes "scheduler_order evs"
  shows "length (filter (for_pair S q) (accepted_boms evs (Node i sink mobile pos, lg))) \<le> 1"
  using accepted_once [OF assms anchored_Node] by blast

theorem beacon_accepted_once_witness:
  "scheduler_order (early_run @ late_run)
   \<and> map src (filter (for_pair (Some 0) 1)
        (accepted_boms (early_run @ late_run) (Node 5 False False (0, 0), Logger))) = [4]
   \<and> map src (filter (for_pair (Some 0) 2)
        (accepted_boms (early_run @ late_run) (Node 5 False False (0, 0), Logger))) = [6]"
proof -
  have a: "map src (filter (for_pair (Some 0) 1)
        (accepted_boms (early_run @ late_run) (Node 5 False False (0, 0), Logger))) = [4]"
    by code_simp
  have b: "map src (filter (for_pair (Some 0) 2)
        (accepted_boms (early_run @ late_run) (Node 5 False False (0, 0), Logger))) = [6]"
    by code_simp
  from a b sample_run_order
    beacon_accepted_once [OF sample_run_order, of "Some 0" 1 5 False False "(0, 0)" Logger]
  show ?thesis by simp
qed

section \<open>Duplicate suppression of data packets\<close>

lemma handle_rms_marks:
  "seen_rms (fst (fst (handle_rms t p st))) = insert (origin p, seq p) (seen_rms (fst st))"
  by (auto simp: handle_rms_def Let_def send_rms_memory)

lemma handle_rms_delivered_le:
  "data_delivered (snd (fst (handle_rms t p st))) \<le> data_delivered (snd st) + 1"
  by (simp add: handle_rms_def Let_def send_rms_memory record_data_delivered_def log_event_def)

lemma handle_rms_duplicate:
  "(origin p, seq p) \<in> seen_rms (fst st) \<Longrightarrow> handle_rms t p st = (st, [])"
  by (simp add: handle_rms_def Let_def)

lemma receive_rms:
  "pkt_type p = ''RMS'' \<Longrightarrow>
   receive t p st = handle_rms t p ((fst st)\<lparr>rx_count := rx_count (fst st) + 1\<rparr>, snd st)"
  by (simp add: receive_def Let_def)

text \<open>
  C4. A data packet is processed at most once per node and (origin, sequence) pair: the
  first arrival records the pair in \<open>seen_rms\<close> and records at most one delivery; whatever
  the node does afterwards, a later arrival of a packet with the same pair, over whatever
  path, is dropped: it hands nothing to the scheduler and leaves the logger and the node
  as they are, except that \<open>receive\<close> has counted the arrival in \<open>rx_count\<close> before the
  handler looks at the packet. The claim that nothing at all changes fails on that
  counter.
\<close>

theorem rms_processed_once:
  assumes "pkt_type p = ''RMS''" and "pkt_type p' = ''RMS''"
      and "origin p' = origin p" and "seq p' = seq p"
  shows "seen_rms (fst (fst (receive t p st))) = insert (origin p, seq p) (seen_rms (fst st))
       \<and> data_delivered (snd (fst (receive t p st))) \<le> data_delivered (snd st) + 1
       \<and> receive t' p' (fst (run evs (fst (receive t p st))))
           = (((fst (fst (run evs (fst (receive t p st)))))
                 \<lparr>rx_count := rx_count (fst (fst (run evs (fst (receive t p st))))) + 1\<rparr>,
               snd (fst (run evs (fst (receive t p st))))), [])"
proof -
  let ?st0 = "((fst st)\<lparr>rx_count := rx_count (fst st) + 1\<rparr>, snd st)"
  let ?st1 = "fst (receive t p st)"
  let ?st2 = "fst (run evs ?st1)"
  let ?st3 = "((fst ?st2)\<lparr>rx_count := rx_count (fst ?st2) + 1\<rparr>, snd ?st2)"
  have r1: "receive t p st = handle_rms t p ?st0"
    using assms(1) by (rule receive_rms)
  have seen: "seen_rms (fst ?st1) = insert (origin p, seq p) (seen_rms (fst st))"
    unfolding r1 by (simp add: handle_rms_marks)
  have del: "data_delivered (snd ?st1) \<le> data_delivered (snd st) + 1"
    unfolding r1 using handle_rms_delivered_le [of t p ?st0] by simp
  have "(origin p, seq p) \<in> seen_rms (fst ?st2)"
    using run_seen_mono [of ?st1 evs] seen by auto
  then have "(origin p', seq p') \<in> seen_rms (fst ?st3)"
    using assms(3,4) by simp
  then have "handle_rms t' p' ?st3 = (?st3, [])"
    by (rule handle_rms_duplicate)
  then have "receive t' p' ?st2 = (?st3, [])"
    using receive_rms [OF assms(2), of t' ?st2] by simp
  with seen del show ?thesis by simp
qed

theorem rms_processed_once_witness:
  "pkt_type rms_via4 = ''RMS'' \<and> pkt_type rms_also6 = ''RMS''
   \<and> origin rms_also6 = origin rms_via4 \<and> seq rms_also6 = seq rms_via4
   \<and> src rms_also6 \<noteq> src rms_via4
   \<and> data_delivered (snd (fst (receive 30.12 rms_via4 (sink0, Logger)))) = 1
   \<and> data_delivered (snd (fst (receive 30.12 rms_also6
        (fst (run [(30.12, NewNeighbors [4, 6, 7])]
                (fst (receive 30.12 rms_via4 (sink0, Logger)))))))) = 1
   \<and> snd (receive 30.12 rms_also6
        (fst (run [(30.12, NewNeighbors [4, 6, 7])]
                (fst (receive 30.12 rms_via4 (sink0, Logger)))))) = []"
proof -
  have k: "pkt_type rms_via4 = ''RMS''" "pkt_type rms_also6 = ''RMS''"
      "origin rms_also6 = origin rms_via4" "seq rms_also6 = seq rms_via4"
    by (simp_all add: samples rms_also6_def)
  have d: "data_delivered (snd (fst (receive 30.12 rms_via4 (sink0, Logger)))) = 1"
    by (simp add: receive_def handle_rms_def Let_def record_data_delivered_def log_event_def
          samples)
  have e: "data_delivered (snd (fst (run [(30.12, NewNeighbors [4, 6, 7])]
                (fst (receive 30.12 rms_via4 (sink0, Logger)))))) = 1"
    using d by (simp add: Let_def)
  have "src rms_also6 \<noteq> src rms_via4"
    by (simp add: samples rms_also6_def)
  with k d e rms_processed_once [OF k, where t = "30.12" and st = "(sink0, Logger)" and t' = "30.12"
                                 and evs = "[(30.12, NewNeighbors [4, 6, 7])]"]
  show ?thesis by simp
qed

theorem duplicate_arrival_counted:
  "origin rms_also6 = origin rms_via4 \<and> seq rms_also6 = seq rms_via4
   \<and> rx_count (fst (fst (receive 30.12 rms_via4 (sink0, Logger)))) = 1
   \<and> rx_count (fst (fst (receive 30.12 rms_also6
                            (fst (receive 30.12 rms_via4 (sink0, Logger)))))) = 2"
  by (simp add: receive_def handle_rms_def Let_def samples rms_also6_def)

section \<open>Forwarding decision\<close>

text \<open>
  C6. With a non-empty routing table the forwarding decision selects an entry of
  smallest hop distance, writes that entry's sink and its hop distance plus one into the
  packet, and unicasts the packet to the neighbour whose id is the entry's next hop: the
  delayed \<open>_deliver\<close> sends one copy to that neighbour. When that id is not among the
  neighbours, or the table is empty, the packet is handed over for broadcast, and the
  broadcast sends one copy to each neighbour of that moment.
\<close>

theorem send_rms_decision:
  "(routing_table n = [] \<longrightarrow> snd (send_rms now p (n, lg)) = [Broadcast p])
   \<and> (routing_table n \<noteq> [] \<longrightarrow>
        (\<exists>sink next_hop dist sq.
            (sink, next_hop, dist, sq) \<in> set (routing_table n)
          \<and> (\<forall>e \<in> set (routing_table n). dist \<le> fst (snd (snd e)))
          \<and> (next_hop \<in> set (neighbors n) \<longrightarrow>
                snd (send_rms now p (n, lg))
                  = [Deliver next_hop (p\<lparr>sink_id := sink, hop_count := dist + 1\<rparr>)])
          \<and> (next_hop \<notin> set (neighbors n) \<longrightarrow>
                snd (send_rms now p (n, lg))
                  = [Broadcast (p\<lparr>sink_id := sink, hop_count := dist + 1\<rparr>)])))
   \<and> snd (deliver nb q n) = [Receive nb (on_air n q)]
   \<and> map (\<lambda>r. case r of Receive nb c \<Rightarrow> nb | _ \<Rightarrow> 0) (snd (broadcast q n)) = neighbors n
   \<and> (\<forall>r \<in> set (snd (broadcast q n)). \<exists>nb. r = Receive nb (on_air n q))"
proof -
  have empty: "routing_table n = [] \<longrightarrow> snd (send_rms now p (n, lg)) = [Broadcast p]"
    by (simp add: send_rms_def)
  have routed: "routing_table n \<noteq> [] \<longrightarrow>
        (\<exists>sink next_hop dist sq.
            (sink, next_hop, dist, sq) \<in> set (routing_table n)
          \<and> (\<forall>e \<in> set (routing_table n). dist \<le> fst (snd (snd e)))
          \<and> (next_hop \<in> set (neighbors n) \<longrightarrow>
                snd (send_rms now p (n, lg))
                  = [Deliver next_hop (p\<lparr>sink_id := sink, hop_count := dist + 1\<rparr>)])
          \<and> (next_hop \<notin> set (neighbors n) \<longrightarrow>
                snd (send_rms now p (n, lg))
                  = [Broadcast (p\<lparr>sink_id := sink, hop_count := dist + 1\<rparr>)]))"
  proof
    assume "routing_table n \<noteq> []"
    then obtain kv kvs where rt: "routing_table n = kv # kvs"
      by (cases "routing_table n") auto
    define best where "best = min_by (\<lambda>kv. fst (snd (snd kv))) kv kvs"
    have mem: "best \<in> set (routing_table n)"
      unfolding best_def rt by (rule min_by_mem)
    have least: "\<forall>e \<in> set (routing_table n). fst (snd (snd best)) \<le> fst (snd (snd e))"
      unfolding best_def rt using min_by_least [of _ kv kvs "\<lambda>kv. fst (snd (snd kv))"] by blast
    have uni: "fst (snd best) \<in> set (neighbors n) \<longrightarrow>
                snd (send_rms now p (n, lg))
                  = [Deliver (fst (snd best))
                       (p\<lparr>sink_id := fst best, hop_count := fst (snd (snd best)) + 1\<rparr>)]"
      by (simp add: send_rms_def rt Let_def find_eq best_def)
    have brd: "fst (snd best) \<notin> set (neighbors n) \<longrightarrow>
                snd (send_rms now p (n, lg))
                  = [Broadcast (p\<lparr>sink_id := fst best, hop_count := fst (snd (snd best)) + 1\<rparr>)]"
      by (simp add: send_rms_def rt Let_def find_eq best_def)
    have "(fst best, fst (snd best), fst (snd (snd best)), snd (snd (snd best)))
            \<in> set (routing_table n)"
      using mem by simp
    with least uni brd show "\<exists>sink next_hop dist sq.
            (sink, next_hop, dist, sq) \<in> set (routing_table n)
          \<and> (\<forall>e \<in> set (routing_table n). dist \<le> fst (snd (snd e)))
          \<and> (next_hop \<in> set (neighbors n) \<longrightarrow>
                snd (send_rms now p (n, lg))
                  = [Deliver next_hop (p\<lparr>sink_id := sink, hop_count := dist + 1\<rparr>)])
          \<and> (next_hop \<notin> set (neighbors n) \<longrightarrow>
                snd (send_rms now p (n, lg))
                  = [Broadcast (p\<lparr>sink_id := sink, hop_count := dist + 1\<rparr>)])"
      by blast
  qed
  have uni: "snd (deliver nb q n) = [Receive nb (on_air n q)]"
    by (simp add: deliver_def on_air_def Let_def)
  have all: "map (\<lambda>r. case r of Receive nb c \<Rightarrow> nb | _ \<Rightarrow> 0) (snd (broadcast q n)) = neighbors n"
    by (simp add: broadcast_def broadcast_loop_out comp_def)
  have copies: "\<forall>r \<in> set (snd (broadcast q n)). \<exists>nb. r = Receive nb (on_air n q)"
    by (auto simp: broadcast_def broadcast_loop_out on_air_def)
  from empty routed uni all copies show ?thesis by blast
qed

theorem send_rms_decision_witness:
  "snd (send_rms 31 rms_fresh (relay5, Logger)) = [Broadcast rms_fresh]
   \<and> snd (send_rms 31 rms_fresh (relay5_routed, Logger))
       = [Deliver 4 (rms_fresh\<lparr>sink_id := Some 0, hop_count := 4\<rparr>)]
   \<and> snd (deliver 4 (rms_fresh\<lparr>sink_id := Some 0, hop_count := 4\<rparr>) relay5_routed)
       = [Receive 4 (rms_fresh\<lparr>src := 5, sink_id := Some 0, hop_count := 4\<rparr>)]
   \<and> snd (send_rms 31 rms_fresh (relay5_lost, Logger))
       = [Broadcast (rms_fresh\<lparr>sink_id := Some 0, hop_count := 3\<rparr>)]
   \<and> snd (broadcast rms_fresh relay5) = [Receive 4 (on_air relay5 rms_fresh), Receive 6 (on_air relay5 rms_fresh)]"
proof -
  have a: "snd (send_rms 31 rms_fresh (relay5, Logger)) = [Broadcast rms_fresh]"
    using send_rms_decision [where n = relay5 and now = 31 and p = rms_fresh and lg = Logger]
    by (simp add: samples)
  have b: "snd (send_rms 31 rms_fresh (relay5_routed, Logger))
       = [Deliver 4 (rms_fresh\<lparr>sink_id := Some 0, hop_count := 4\<rparr>)]"
    by (simp add: send_rms_def Let_def samples)
  have c: "snd (deliver 4 (rms_fresh\<lparr>sink_id := Some 0, hop_count := 4\<rparr>) relay5_routed)
       = [Receive 4 (rms_fresh\<lparr>src := 5, sink_id := Some 0, hop_count := 4\<rparr>)]"
    using send_rms_decision [where n = relay5_routed and nb = 4
            and q = "rms_fresh\<lparr>sink_id := Some 0, hop_count := 4\<rparr>"]
    by (simp add: on_air_def samples)
  have d: "snd (send_rms 31 rms_fresh (relay5_lost, Logger))
       = [Broadcast (rms_fresh\<lparr>sink_id := Some 0, hop_count := 3\<rparr>)]"
    by (simp add: send_rms_def Let_def samples)
  have e: "snd (broadcast rms_fresh relay5)
       = [Receive 4 (on_air relay5 rms_fresh), Receive 6 (on_air relay5 rms_fresh)]"
    by (simp add: broadcast_def on_air_def Let_def samples)
  from a b c d e show ?thesis by blast
qed

section \<open>Hop budget of data packets\<close>





section \<open>Transmission counter\<close>

text \<open>
  C10. A unicast raises the sender's \<open>tx_count\<close> twice, once when \<open>_send_rms\<close> starts it
  and once when the delayed \<open>_deliver\<close> runs; starting a broadcast leaves the counter
  alone, and the delayed \<open>_broadcast\<close> raises it once for each neighbour of that moment.
\<close>

theorem tx_count_accounting:
  "(\<forall>nb q. snd (send_rms now p (n, lg)) = [Deliver nb q] \<longrightarrow>
        tx_count (fst (fst (send_rms now p (n, lg)))) = tx_count n + 1
      \<and> tx_count (fst (deliver nb q (fst (fst (send_rms now p (n, lg)))))) = tx_count n + 2)
   \<and> (\<forall>q. snd (send_rms now p (n, lg)) = [Broadcast q] \<longrightarrow>
        tx_count (fst (fst (send_rms now p (n, lg)))) = tx_count n)
   \<and> tx_count (fst (broadcast q' n)) = tx_count n + length (neighbors n)
   \<and> length (snd (broadcast q' n)) = length (neighbors n)"
  by (auto simp: send_rms_def deliver_def broadcast_def broadcast_loop_tx broadcast_loop_out
        Let_def find_eq split: list.splits if_splits)

theorem tx_count_accounting_witness:
  "snd (send_rms 31 rms_fresh (relay5_routed, Logger))
     = [Deliver 4 (rms_fresh\<lparr>sink_id := Some 0, hop_count := 4\<rparr>)]
   \<and> tx_count relay5_routed = 0
   \<and> tx_count (fst (deliver 4 (rms_fresh\<lparr>sink_id := Some 0, hop_count := 4\<rparr>)
                  (fst (fst (send_rms 31 rms_fresh (relay5_routed, Logger)))))) = 2
   \<and> snd (send_rms 31 rms_fresh (relay5, Logger)) = [Broadcast rms_fresh]
   \<and> tx_count (fst (fst (send_rms 31 rms_fresh (relay5, Logger)))) = 0
   \<and> tx_count (fst (broadcast rms_fresh relay5)) = 2"
proof -
  have u: "snd (send_rms 31 rms_fresh (relay5_routed, Logger))
     = [Deliver 4 (rms_fresh\<lparr>sink_id := Some 0, hop_count := 4\<rparr>)]"
    by (simp add: send_rms_def Let_def samples)
  have b: "snd (send_rms 31 rms_fresh (relay5, Logger)) = [Broadcast rms_fresh]"
    by (simp add: send_rms_def Let_def samples)
  have z: "tx_count relay5_routed = 0" "tx_count relay5 = 0" "length (neighbors relay5) = 2"
    by (simp_all add: samples)
  from u b z
    tx_count_accounting [where p = rms_fresh and n = relay5_routed and now = 31 and lg = Logger]
    tx_count_accounting [where p = rms_fresh and n = relay5 and now = 31 and lg = Logger
                           and q' = rms_fresh]
  show ?thesis by simp
qed

section \<open>The neighbour graph\<close>



lemma unlinked_fields:
  assumes "unlinked a = unlinked b"
  shows "pos_x a = pos_x b" and "pos_y a = pos_y b" and "is_mobile a = is_mobile b"
    and "node_id a = node_id b"
proof -
  have "pos_x (unlinked a) = pos_x (unlinked b)" "pos_y (unlinked a) = pos_y (unlinked b)"
       "is_mobile (unlinked a) = is_mobile (unlinked b)"
       "node_id (unlinked a) = node_id (unlinked b)"
    using assms by simp_all
  then show "pos_x a = pos_x b" and "pos_y a = pos_y b" and "is_mobile a = is_mobile b"
    and "node_id a = node_id b"
    by (simp_all add: unlinked_def)
qed

lemma unlinked_nth:
  assumes "map unlinked ns' = map unlinked ns" and "i < length ns"
  shows "unlinked (ns' ! i) = unlinked (ns ! i)"
proof -
  from assms(1) have len: "length ns' = length ns" using map_eq_imp_length_eq by blast
  have "map unlinked ns' ! i = map unlinked ns ! i" using assms(1) by simp
  with assms(2) len show ?thesis by simp
qed

lemma length_link [simp]: "length (link i j ns) = length ns"
  by (simp add: link_def Let_def)











lemma set_all_pairs: "set (all_pairs n [0 ..< n]) = {(i, j). i < j \<and> j < n}"
proof (rule set_eqI, rule iffI)
  fix p :: "nat \<times> nat"
  assume "p \<in> set (all_pairs n [0 ..< n])"
  then obtain xs where "xs \<in> set (map (\<lambda>i. map (Pair i) [i + 1 ..< n]) [0 ..< n])" "p \<in> set xs"
    unfolding all_pairs_def set_concat by blast
  then obtain i where "i < n" "p \<in> set (map (Pair i) [i + 1 ..< n])"
    by auto
  then show "p \<in> {(i, j). i < j \<and> j < n}" by auto
next
  fix p :: "nat \<times> nat"
  assume "p \<in> {(i, j). i < j \<and> j < n}"
  then obtain i j where p: "p = (i, j)" "i < j" "j < n" by auto
  then have "i \<in> set [0 ..< n]" and "p \<in> set (map (Pair i) [i + 1 ..< n])"
    by auto
  then have "p \<in> \<Union> (set ` set (map (\<lambda>i. map (Pair i) [i + 1 ..< n]) [0 ..< n]))"
    by (intro UN_I [of "map (Pair i) [i + 1 ..< n]"]) auto
  then show "p \<in> set (all_pairs n [0 ..< n])"
    by (simp only: all_pairs_def set_concat)
qed




lemma sqrt_le_30: "0 \<le> v \<Longrightarrow> sqrt v \<le> 30 \<longleftrightarrow> v \<le> 900"
  using real_sqrt_le_iff [of v 900] by simp

subsection \<open>Machine arithmetic\<close>

lemma round_even_int: "round_even (of_int n) = n"
  by (simp add: round_even_def)

lemma round_even_below: "of_int n \<le> y \<Longrightarrow> y < of_int n + 1 / 2 \<Longrightarrow> round_even y = n"
proof -
  assume a: "of_int n \<le> y" "y < of_int n + 1 / 2"
  then have "\<lfloor>y\<rfloor> = n" by (intro floor_unique) auto
  with a show ?thesis by (simp add: round_even_def)
qed

lemma round_double_binade:
  assumes "2 powr of_int e \<le> \<bar>x\<bar>" and "\<bar>x\<bar> < 2 powr (of_int e + 1)"
  shows "round_double x = of_int (round_even (x / 2 powr (of_int e - 52))) * 2 powr (of_int e - 52)"
proof -
  have pos: "0 < \<bar>x\<bar>"
    using assms(1) powr_gt_zero [of 2 "of_int e"] by linarith
  have "of_int e \<le> log 2 \<bar>x\<bar>"
    using assms(1) pos by (simp add: le_log_iff)
  moreover have "log 2 \<bar>x\<bar> < of_int e + 1"
    using assms(2) pos by (simp add: log_less_iff)
  ultimately have "\<lfloor>log 2 \<bar>x\<bar>\<rfloor> = e"
    by (intro floor_unique) auto
  with pos show ?thesis by (simp add: round_double_def Let_def)
qed

lemma round_double_30: "round_double 30 = 30"
proof -
  have "round_double 30 = of_int (round_even (30 / 2 powr (of_int 4 - 52))) * 2 powr (of_int 4 - 52)"
    by (rule round_double_binade) simp_all
  also have "2 powr (of_int 4 - 52) = (1 / 2 ^ 48 :: real)"
    by (simp add: powr_minus_divide)
  also have "30 / (1 / 2 ^ 48) = real_of_int (30 * 2 ^ 48)"
    by simp
  finally show ?thesis by (simp only: round_even_int) simp
qed

lemma round_double_tiny: "round_double (1 / 2 ^ 23) = 1 / 2 ^ 23"
proof -
  have p: "2 powr (of_int (- 23)) = (1 / 2 ^ 23 :: real)" "2 powr (of_int (- 23) + 1) = (1 / 2 ^ 22 :: real)"
    by (simp_all add: powr_minus_divide)
  have "round_double (1 / 2 ^ 23)
          = of_int (round_even ((1 / 2 ^ 23) / 2 powr (of_int (- 23) - 52))) * 2 powr (of_int (- 23) - 52)"
    by (rule round_double_binade) (simp_all only: p, simp_all)
  also have "2 powr (of_int (- 23) - 52) = (1 / 2 ^ 75 :: real)"
    by (simp add: powr_minus_divide)
  also have "(1 / 2 ^ 23) / (1 / 2 ^ 75) = real_of_int (2 ^ 52)"
    by simp
  finally show ?thesis by (simp only: round_even_int) simp
qed

lemma sqrt_above_30: "30 < sqrt (30 * 30 + (1 / 2 ^ 23) * (1 / 2 ^ 23))"
proof -
  have "sqrt (30 * 30) < sqrt (30 * 30 + (1 / 2 ^ 23) * (1 / 2 ^ 23))"
    by (subst real_sqrt_less_iff) simp
  then show ?thesis by simp
qed

lemma sqrt_near_30: "sqrt (30 * 30 + (1 / 2 ^ 23) * (1 / 2 ^ 23)) < 30 + 1 / 2 ^ 49"
proof -
  define a :: real where "a = 30 + 1 / 2 ^ 49"
  have "30 * 30 + (1 / 2 ^ 23) * (1 / 2 ^ 23) < a * a"
    by (simp add: a_def)
  then have "sqrt (30 * 30 + (1 / 2 ^ 23) * (1 / 2 ^ 23)) < sqrt (a * a)"
    by (subst real_sqrt_less_iff)
  also have "sqrt (a * a) = \<bar>a\<bar>"
    by (rule real_sqrt_abs2)
  also have "\<bar>a\<bar> = a"
    by (simp add: a_def)
  finally show ?thesis by (simp only: a_def)
qed

lemma round_double_sqrt: "round_double (sqrt (30 * 30 + (1 / 2 ^ 23) * (1 / 2 ^ 23))) = 30"
proof -
  define x where "x = sqrt (30 * 30 + (1 / 2 ^ 23) * (1 / 2 ^ 23))"
  have lo: "30 < x" and hi: "x < 30 + 1 / 2 ^ 49"
    unfolding x_def by (rule sqrt_above_30, rule sqrt_near_30)
  have "round_double x = of_int (round_even (x / 2 powr (of_int 4 - 52))) * 2 powr (of_int 4 - 52)"
    using lo hi by (intro round_double_binade) simp_all
  also have "2 powr (of_int 4 - 52) = (1 / 2 ^ 48 :: real)"
    by (simp add: powr_minus_divide)
  also have "round_even (x / (1 / 2 ^ 48)) = 30 * 2 ^ 48"
  proof (rule round_even_below)
    show "real_of_int (30 * 2 ^ 48) \<le> x / (1 / 2 ^ 48)" using lo by simp
    have "x * 2 ^ 48 < (30 + 1 / 2 ^ 49) * 2 ^ 48" using hi by simp
    then show "x / (1 / 2 ^ 48) < real_of_int (30 * 2 ^ 48) + 1 / 2" by simp
  qed
  finally show ?thesis by (simp add: x_def)
qed

lemma length_link_fp [simp]: "length (link_fp ops i j ns) = length ns"
  by (simp add: link_fp_def Let_def)

lemma unlinked_link_fp:
  "i < length ns \<Longrightarrow> j < length ns \<Longrightarrow> map unlinked (link_fp ops i j ns) = map unlinked ns"
  by (auto simp: link_fp_def Let_def unlinked_def list_eq_iff_nth_eq nth_list_update)

lemma neighbors_link_fp:
  "i < length ns \<Longrightarrow> j < length ns \<Longrightarrow> i \<noteq> j \<Longrightarrow> k < length ns \<Longrightarrow>
   neighbors (link_fp ops i j ns ! k) =
     neighbors (ns ! k) @ (if measured ops ns i j \<le> COMM_RANGE
                           then (if k = i then [j] else if k = j then [i] else [])
                           else [])"
  by (auto simp: link_fp_def Let_def measured_def nth_list_update)

lemma measured_unlinked:
  assumes "map unlinked ns' = map unlinked ns" and "i < length ns" and "j < length ns"
  shows "measured ops ns' i j = measured ops ns i j"
  using unlinked_fields(1,2) [OF unlinked_nth [OF assms(1,2)]]
        unlinked_fields(1,2) [OF unlinked_nth [OF assms(1,3)]]
  by (simp add: measured_def)

lemma links_fp_Cons: "links_fp ops (p # ps) ns = links_fp ops ps (link_fp ops (fst p) (snd p) ns)"
  by (simp add: links_fp_def)

lemma links_fp_append: "links_fp ops (ps @ qs) ns = links_fp ops qs (links_fp ops ps ns)"
  by (simp add: links_fp_def)

lemma links_fp_graph:
  assumes "\<forall>p \<in> set ps. fst p < snd p \<and> snd p < length ns"
  shows "length (links_fp ops ps ns) = length ns
       \<and> map unlinked (links_fp ops ps ns) = map unlinked ns
       \<and> (\<forall>k < length ns. set (neighbors (links_fp ops ps ns ! k)) =
             set (neighbors (ns ! k))
               \<union> {j. (k, j) \<in> set ps \<and> measured ops ns k j \<le> COMM_RANGE}
               \<union> {i. (i, k) \<in> set ps \<and> measured ops ns i k \<le> COMM_RANGE})"
  using assms
proof (induction ps arbitrary: ns)
  case Nil
  show ?case by (simp add: links_fp_def)
next
  case (Cons p ps)
  obtain i j where p: "p = (i, j)" by (cases p) auto
  from Cons.prems p have ij: "i < j" "j < length ns" "i < length ns" by auto
  let ?ns1 = "link_fp ops i j ns"
  have len1: "length ?ns1 = length ns" by simp
  have un1: "map unlinked ?ns1 = map unlinked ns" using ij by (simp add: unlinked_link_fp)
  from Cons.prems have rest: "\<forall>p \<in> set ps. fst p < snd p \<and> snd p < length ?ns1" by simp
  note ih = Cons.IH [OF rest]
  have same: "measured ops ?ns1 a b = measured ops ns a b"
    if "a < length ns" "b < length ns" for a b
    using measured_unlinked [OF un1 that] .
  have "set (neighbors (links_fp ops (p # ps) ns ! k)) =
          set (neighbors (ns ! k))
            \<union> {j. (k, j) \<in> set (p # ps) \<and> measured ops ns k j \<le> COMM_RANGE}
            \<union> {i. (i, k) \<in> set (p # ps) \<and> measured ops ns i k \<le> COMM_RANGE}"
    if k: "k < length ns" for k
  proof -
    have a: "set (neighbors (links_fp ops ps ?ns1 ! k)) =
          set (neighbors (?ns1 ! k))
            \<union> {j. (k, j) \<in> set ps \<and> measured ops ?ns1 k j \<le> COMM_RANGE}
            \<union> {i. (i, k) \<in> set ps \<and> measured ops ?ns1 i k \<le> COMM_RANGE}"
      using ih k by simp
    have b: "{j. (k, j) \<in> set ps \<and> measured ops ?ns1 k j \<le> COMM_RANGE}
               = {j. (k, j) \<in> set ps \<and> measured ops ns k j \<le> COMM_RANGE}"
      using same k rest by fastforce
    have c: "{i. (i, k) \<in> set ps \<and> measured ops ?ns1 i k \<le> COMM_RANGE}
               = {i. (i, k) \<in> set ps \<and> measured ops ns i k \<le> COMM_RANGE}"
      using same k rest by fastforce
    have d: "set (neighbors (?ns1 ! k)) =
          set (neighbors (ns ! k))
            \<union> {j'. (k, j') = (i, j) \<and> measured ops ns k j' \<le> COMM_RANGE}
            \<union> {i'. (i', k) = (i, j) \<and> measured ops ns i' k \<le> COMM_RANGE}"
      using neighbors_link_fp [of i ns j k ops] ij k by auto
    show ?thesis
      unfolding p links_fp_Cons fst_conv snd_conv a b c d by auto
  qed
  with ih len1 un1 show ?case
    by (simp add: p links_fp_Cons)
qed

lemma length_links_fp: "length (links_fp ops ps ns) = length ns"
  by (induction ps arbitrary: ns) (simp_all add: links_fp_def)

lemma fold_outer_fp:
  "fold (\<lambda>i acc. fold (link_fp ops i) [i + 1 ..< length acc] acc) is ns
     = links_fp ops (all_pairs (length ns) is) ns"
proof (induction "is" arbitrary: ns)
  case Nil
  show ?case by (simp add: links_fp_def all_pairs_def)
next
  case (Cons i "is")
  let ?ns1 = "links_fp ops (map (Pair i) [i + 1 ..< length ns]) ns"
  have "fold (\<lambda>i acc. fold (link_fp ops i) [i + 1 ..< length acc] acc) (i # is) ns
          = fold (\<lambda>i acc. fold (link_fp ops i) [i + 1 ..< length acc] acc) is ?ns1"
    by (simp add: links_fp_def fold_map comp_def)
  also have "\<dots> = links_fp ops (all_pairs (length ?ns1) is) ?ns1"
    by (rule Cons.IH)
  also have "\<dots> = links_fp ops (all_pairs (length ns) (i # is)) ns"
    by (simp add: length_links_fp all_pairs_def links_fp_append)
  finally show ?case .
qed

lemma update_neighbors_fp_links:
  "update_neighbors_fp ops ns
     = links_fp ops (all_pairs (length ns) [0 ..< length ns]) (map unlinked ns)"
proof -
  have "(\<lambda>n. n\<lparr>neighbors := []\<rparr>) = unlinked"
    by (rule ext) (simp add: unlinked_def)
  then have "update_neighbors_fp ops ns =
      fold (\<lambda>i acc. fold (link_fp ops i) [i + 1 ..< length acc] acc)
        [0 ..< length (map unlinked ns)] (map unlinked ns)"
    unfolding update_neighbors_fp_def by simp
  also have "\<dots> = links_fp ops (all_pairs (length (map unlinked ns))
                        [0 ..< length (map unlinked ns)]) (map unlinked ns)"
    by (rule fold_outer_fp)
  finally show ?thesis by simp
qed

lemma update_neighbors_fp_unlinked:
  "map unlinked (update_neighbors_fp ops ns) = map unlinked ns"
proof -
  have "\<forall>p \<in> set (all_pairs (length ns) [0 ..< length ns]).
          fst p < snd p \<and> snd p < length (map unlinked ns)"
    by (auto simp: set_all_pairs)
  from links_fp_graph [OF this]
  have "map unlinked (update_neighbors_fp ops ns) = map unlinked (map unlinked ns)"
    by (simp add: update_neighbors_fp_links)
  then show ?thesis by (simp add: unlinked_def comp_def)
qed

lemma update_neighbors_fp_set:
  assumes "k < length ns"
  shows "set (neighbors (update_neighbors_fp ops ns ! k))
           = {j. k < j \<and> j < length ns \<and> measured ops ns k j \<le> COMM_RANGE}
             \<union> {i. i < k \<and> measured ops ns i k \<le> COMM_RANGE}"
proof -
  let ?ps = "all_pairs (length ns) [0 ..< length ns]" and ?ns0 = "map unlinked ns"
  have valid: "\<forall>p \<in> set ?ps. fst p < snd p \<and> snd p < length ?ns0"
    by (auto simp: set_all_pairs)
  have un0: "map unlinked ?ns0 = map unlinked ns"
    by (simp add: unlinked_def comp_def)
  have same: "measured ops ?ns0 a b = measured ops ns a b"
    if "a < length ns" "b < length ns" for a b
    using measured_unlinked [OF un0 that] .
  have k0: "k < length ?ns0" using assms by simp
  from links_fp_graph [OF valid] k0
  have eq: "set (neighbors (links_fp ops ?ps ?ns0 ! k)) =
          set (neighbors (?ns0 ! k))
            \<union> {j. (k, j) \<in> set ?ps \<and> measured ops ?ns0 k j \<le> COMM_RANGE}
            \<union> {i. (i, k) \<in> set ?ps \<and> measured ops ?ns0 i k \<le> COMM_RANGE}"
    by blast
  have e0: "set (neighbors (?ns0 ! k)) = {}"
    using assms by (simp add: unlinked_def)
  have e1: "{j. (k, j) \<in> set ?ps \<and> measured ops ?ns0 k j \<le> COMM_RANGE}
              = {j. k < j \<and> j < length ns \<and> measured ops ns k j \<le> COMM_RANGE}"
  proof (rule Collect_cong)
    fix j
    show "((k, j) \<in> set ?ps \<and> measured ops ?ns0 k j \<le> COMM_RANGE)
            = (k < j \<and> j < length ns \<and> measured ops ns k j \<le> COMM_RANGE)"
      using same [of k j] assms by (auto simp only: set_all_pairs mem_Collect_eq prod.case)
  qed
  have e2: "{i. (i, k) \<in> set ?ps \<and> measured ops ?ns0 i k \<le> COMM_RANGE}
              = {i. i < k \<and> measured ops ns i k \<le> COMM_RANGE}"
  proof (rule Collect_cong)
    fix i
    have "i < k \<Longrightarrow> measured ops ?ns0 i k = measured ops ns i k"
      using same [of i k] assms by simp
    then show "((i, k) \<in> set ?ps \<and> measured ops ?ns0 i k \<le> COMM_RANGE)
                 = (i < k \<and> measured ops ns i k \<le> COMM_RANGE)"
      using assms by (auto simp only: set_all_pairs mem_Collect_eq prod.case)
  qed
  show ?thesis
    unfolding update_neighbors_fp_links eq e0 e1 e2 by simp
qed

lemma link_fp_exact: "link_fp exact = link"
  by (intro ext) (simp add: link_fp_def link_def exact_def)

lemma update_neighbors_fp_exact: "update_neighbors_fp exact ns = update_neighbors ns"
  by (simp add: update_neighbors_fp_def update_neighbors_def link_fp_exact)

lemma measured_close_pair: "measured double close_pair 0 1 = 30"
proof -
  have "measured double close_pair 0 1
          = round_double (hypot (round_double 30) (round_double (1 / 2 ^ 23)))"
    by (simp add: measured_def double_def close_pair_def node_at_def Node_def)
  also have "\<dots> = round_double (sqrt (30 * 30 + (1 / 2 ^ 23) * (1 / 2 ^ 23)))"
    by (simp only: round_double_30 round_double_tiny hypot_def)
  finally show ?thesis by (simp only: round_double_sqrt)
qed

text \<open>
  C5. After a recomputation of the neighbour graph, for nodes \<open>a\<close> and \<open>b\<close> of the
  engine, \<open>b\<close> is in the neighbour list of \<open>a\<close> exactly when the two are distinct and the
  distance that the code computes for the pair, with the node of lower index first, is
  at most the communication range; the relation is symmetric and no node is its own
  neighbour, whatever the machine arithmetic. The recomputation leaves the positions and
  the number of nodes as they were. In exact arithmetic the loop is \<open>update_neighbors\<close>
  and the computed distance is the Euclidean distance. In double arithmetic it is not:
  two nodes whose Euclidean distance exceeds the range by less than the rounding of
  \<open>math.hypot\<close> are neighbours.
\<close>

theorem update_neighbors_fp_graph:
  assumes "a < length ns" and "b < length ns"
  shows "(b \<in> set (neighbors (update_neighbors_fp ops ns ! a)) \<longleftrightarrow>
            a \<noteq> b \<and> measured ops ns (min a b) (max a b) \<le> COMM_RANGE)
       \<and> (b \<in> set (neighbors (update_neighbors_fp ops ns ! a)) \<longleftrightarrow>
            a \<in> set (neighbors (update_neighbors_fp ops ns ! b)))
       \<and> a \<notin> set (neighbors (update_neighbors_fp ops ns ! a))
       \<and> pos_x (update_neighbors_fp ops ns ! a) = pos_x (ns ! a)
       \<and> pos_y (update_neighbors_fp ops ns ! a) = pos_y (ns ! a)
       \<and> length (update_neighbors_fp ops ns) = length ns
       \<and> update_neighbors_fp exact ns = update_neighbors ns
       \<and> measured exact ns a b
           = sqrt ((pos_x (ns ! a) - pos_x (ns ! b))\<^sup>2 + (pos_y (ns ! a) - pos_y (ns ! b))\<^sup>2)"
proof -
  have pos: "pos_x (update_neighbors_fp ops ns ! a) = pos_x (ns ! a)"
            "pos_y (update_neighbors_fp ops ns ! a) = pos_y (ns ! a)"
    using unlinked_fields(1,2) [OF unlinked_nth [OF update_neighbors_fp_unlinked assms(1)]]
    by simp_all
  have len: "length (update_neighbors_fp ops ns) = length ns"
    by (simp add: update_neighbors_fp_links length_links_fp)
  have ab: "b \<in> set (neighbors (update_neighbors_fp ops ns ! a)) \<longleftrightarrow>
              a \<noteq> b \<and> measured ops ns (min a b) (max a b) \<le> COMM_RANGE"
    using assms(2) by (auto simp: update_neighbors_fp_set [OF assms(1)] min_def max_def)
  have ba: "a \<in> set (neighbors (update_neighbors_fp ops ns ! b)) \<longleftrightarrow>
              a \<noteq> b \<and> measured ops ns (min a b) (max a b) \<le> COMM_RANGE"
    using assms(1) by (auto simp: update_neighbors_fp_set [OF assms(2)] min_def max_def)
  have aa: "a \<notin> set (neighbors (update_neighbors_fp ops ns ! a))"
    using update_neighbors_fp_set [OF assms(1)] by simp
  have ex: "measured exact ns a b
           = sqrt ((pos_x (ns ! a) - pos_x (ns ! b))\<^sup>2 + (pos_y (ns ! a) - pos_y (ns ! b))\<^sup>2)"
    by (simp add: measured_def exact_def hypot_def power2_eq_square)
  from ab ba aa pos len ex update_neighbors_fp_exact [of ns] show ?thesis
    by (simp only: simp_thms)
qed

theorem update_neighbors_fp_graph_witness:
  "(0::nat) < length three_nodes \<and> (1::nat) < length three_nodes
   \<and> 1 \<in> set (neighbors (update_neighbors_fp exact three_nodes ! 0))
   \<and> 0 \<in> set (neighbors (update_neighbors_fp exact three_nodes ! 1))
   \<and> 2 \<notin> set (neighbors (update_neighbors_fp exact three_nodes ! 0))
   \<and> 0 \<notin> set (neighbors (update_neighbors_fp exact three_nodes ! 0))
   \<and> measured double close_pair 0 1 = 30
   \<and> 0 \<in> set (neighbors (update_neighbors_fp double close_pair ! 1))"
proof -
  have l: "(0::nat) < length three_nodes" "(1::nat) < length three_nodes"
    "(2::nat) < length three_nodes"
    by (simp_all add: three_nodes_def)
  have c: "(0::nat) < length close_pair" "(1::nat) < length close_pair"
    by (simp_all add: close_pair_def)
  have near: "measured exact three_nodes (min 0 1) (max 0 1) \<le> COMM_RANGE"
    by (simp add: measured_def exact_def hypot_def three_nodes_def node_at_def Node_def
          COMM_RANGE_def sqrt_le_30)
  have far: "\<not> measured exact three_nodes (min 0 2) (max 0 2) \<le> COMM_RANGE"
    by (simp add: measured_def exact_def hypot_def three_nodes_def node_at_def Node_def
          COMM_RANGE_def sqrt_le_30)
  have cl: "measured double close_pair (min 1 0) (max 1 0) \<le> COMM_RANGE"
    using measured_close_pair by (simp add: COMM_RANGE_def)
  from l c near far cl measured_close_pair
    update_neighbors_fp_graph [OF l(1) l(2), of exact]
    update_neighbors_fp_graph [OF l(1) l(3), of exact]
    update_neighbors_fp_graph [OF c(2) c(1), of double]
  show ?thesis by auto
qed

theorem rounding_links_beyond_range:
  "1 \<in> set (neighbors (update_neighbors_fp double close_pair ! 0))
   \<and> 0 \<in> set (neighbors (update_neighbors_fp double close_pair ! 1))
   \<and> COMM_RANGE < sqrt ((pos_x (close_pair ! 0) - pos_x (close_pair ! 1))\<^sup>2
                        + (pos_y (close_pair ! 0) - pos_y (close_pair ! 1))\<^sup>2)"
proof -
  have c: "(0::nat) < length close_pair" "(1::nat) < length close_pair"
    by (simp_all add: close_pair_def)
  have "1 \<in> set (neighbors (update_neighbors_fp double close_pair ! 0))"
    using c measured_close_pair by (simp add: update_neighbors_fp_set [OF c(1)] COMM_RANGE_def)
  moreover have "0 \<in> set (neighbors (update_neighbors_fp double close_pair ! 1))"
    unfolding update_neighbors_fp_set [OF c(2)]
    using measured_close_pair by (simp add: COMM_RANGE_def)
  moreover have "COMM_RANGE < sqrt ((pos_x (close_pair ! 0) - pos_x (close_pair ! 1))\<^sup>2
                        + (pos_y (close_pair ! 0) - pos_y (close_pair ! 1))\<^sup>2)"
    using sqrt_above_30
    by (simp add: close_pair_def node_at_def Node_def COMM_RANGE_def power2_eq_square)
  ultimately show ?thesis by blast
qed

section \<open>Construction raises no error\<close>

lemma good_position_Nil: "good_position md [] xy"
  by (simp add: good_position_def)

lemma sample_mesh_empty: "fst (sample_mesh (Suc k) x0 y0 md [] g) \<noteq> None"
  by (simp add: Let_def good_position_Nil)

lemma place_mesh_Inr: "\<exists>r. place_mesh eng placed g = Inr r"
proof -
  define r where "r = sample_mesh 200 ((width eng - 80) / 2) ((height eng - 80) / 2)
                        (MIN_DIST eng) placed g"
  have unf: "place_mesh eng placed g =
      (case fst r of
         Some xy \<Rightarrow> Inr (xy, snd r)
       | None \<Rightarrow>
           (case choice placed (snd r) of
              Inl e \<Rightarrow> Inl e
            | Inr oc \<Rightarrow>
                (let angle = uniform 0 (2 * pi) (snd oc);
                     x = fst (fst oc) + MIN_DIST eng * cos (fst angle);
                     y = snd (fst oc) + MIN_DIST eng * sin (fst angle)
                 in Inr ((clip (width eng) x, clip (height eng) y), snd angle))))"
    unfolding place_mesh_def r_def Let_def ..
  show ?thesis
  proof (cases "fst r")
    case (Some xy)
    then show ?thesis by (simp add: unf)
  next
    case None
    have "200 = Suc 199" by simp
    then have "placed = [] \<Longrightarrow> fst r \<noteq> None"
      unfolding r_def using sample_mesh_empty [of 199] by metis
    with None have "placed \<noteq> []" by blast
    then obtain oc where "choice placed (snd r) = Inr oc"
      by (simp add: choice_def)
    then show ?thesis
      by (simp add: unf None Let_def)
  qed
qed

lemma create_mesh_Inr: "\<exists>c'. create_mesh eng k c = Inr c'"
proof (induction k arbitrary: c)
  case 0
  show ?case by simp
next
  case (Suc k)
  obtain r where r: "place_mesh eng (static_positions c) (gen c) = Inr r"
    using place_mesh_Inr by blast
  show ?case
    using Suc.IH by (simp add: r Let_def)
qed

text \<open>
  What the loop body can do with the node at index \<open>i\<close>: nothing, when the node has a
  neighbour or no other static node exists; move it next to an anchor, at 0.8 or 0.99 of
  the range before clipping; or give up for this round, when every attempt collided and
  an earlier node of the round was moved already.
\<close>

lemma relocate_try_Some:
  "relocate_try k eng static i anchor g = (Some xy, g') \<Longrightarrow>
   \<exists>angle. xy = (clip (width eng) (pos_x (nodes eng ! anchor) + COMM_RANGE * 0.8 * cos angle),
                 clip (height eng) (pos_y (nodes eng ! anchor) + COMM_RANGE * 0.8 * sin angle))"
proof (induction k arbitrary: g)
  case 0
  then show ?case by simp
next
  case (Suc k)
  let ?angle = "uniform 0 (2 * pi) g"
  let ?new_x = "clip (width eng) (pos_x (nodes eng ! anchor) + COMM_RANGE * 0.8 * cos (fst ?angle))"
  let ?new_y = "clip (height eng) (pos_y (nodes eng ! anchor) + COMM_RANGE * 0.8 * sin (fst ?angle))"
  let ?good = "list_all (\<lambda>other. node_id (nodes eng ! other) = node_id (nodes eng ! i)
                   \<or> \<not> hypot (?new_x - pos_x (nodes eng ! other)) (?new_y - pos_y (nodes eng ! other))
                         < MIN_DIST eng) static"
  have unf: "relocate_try (Suc k) eng static i anchor g =
          (if ?good then (Some (?new_x, ?new_y), snd ?angle)
           else relocate_try k eng static i anchor (snd ?angle))"
    by (simp only: relocate_try.simps Let_def)
  show ?case
  proof (cases ?good)
    case True
    with Suc.prems unf have "xy = (?new_x, ?new_y)" by simp
    then show ?thesis by blast
  next
    case False
    with Suc.prems unf have "relocate_try k eng static i anchor (snd ?angle) = (Some xy, g')"
      by simp
    then show ?thesis by (rule Suc.IH)
  qed
qed

lemma repair_node_cases:
  "(repair_node static i s = Inr s
      \<and> (neighbors (nodes (fst s) ! i) \<noteq> []
           \<or> filter (\<lambda>n. node_id (nodes (fst s) ! n) \<noteq> node_id (nodes (fst s) ! i)) static = []))
   \<or> (\<exists>anchor angle r g'. neighbors (nodes (fst s) ! i) = []
         \<and> anchor \<in> set (filter (\<lambda>n. node_id (nodes (fst s) ! n) \<noteq> node_id (nodes (fst s) ! i))
                            static)
         \<and> (r = COMM_RANGE * 0.8 \<or> r = COMM_RANGE * 0.99)
         \<and> repair_node static i s =
             Inr ((fst s)\<lparr>nodes := (nodes (fst s))[i := (nodes (fst s) ! i)
                    \<lparr>pos_x := clip (width (fst s)) (pos_x (nodes (fst s) ! anchor) + r * cos angle),
                     pos_y := clip (height (fst s)) (pos_y (nodes (fst s) ! anchor) + r * sin angle)\<rparr>]\<rparr>,
                  True, g'))
   \<or> (\<exists>g'. fst (snd s) \<and> repair_node static i s = Inr (fst s, True, g'))"
proof -
  let ?ns = "nodes (fst s)"
  let ?candidates = "filter (\<lambda>n. node_id (?ns ! n) \<noteq> node_id (?ns ! i)) static"
  let ?g = "snd (snd s)"
  let ?anchor = "?candidates ! (picks ?g (used ?g) mod length ?candidates)"
  let ?g1 = "?g\<lparr>used := used ?g + 1\<rparr>"
  let ?r = "relocate_try 50 (fst s) static i ?anchor ?g1"
  show ?thesis
  proof (cases "neighbors (?ns ! i) \<noteq> [] \<or> ?candidates = []")
    case True
    then have "repair_node static i s = Inr s"
      by (auto simp: repair_node_def Let_def)
    with True show ?thesis by blast
  next
    case False
    then have iso: "neighbors (?ns ! i) = []" and cand: "?candidates \<noteq> []" by auto
    have ch: "choice ?candidates ?g = Inr (?anchor, ?g1)"
      using cand by (simp add: choice_def)
    have "picks ?g (used ?g) mod length ?candidates < length ?candidates"
      using cand by simp
    then have mem: "?anchor \<in> set ?candidates"
      by (rule nth_mem)
    show ?thesis
    proof (cases "fst ?r")
      case (Some xy)
      then have "?r = (Some xy, snd ?r)"
        by (simp add: prod_eq_iff)
      from relocate_try_Some [OF this] obtain angle where
        xy: "xy = (clip (width (fst s)) (pos_x (?ns ! ?anchor) + COMM_RANGE * 0.8 * cos angle),
                   clip (height (fst s)) (pos_y (?ns ! ?anchor) + COMM_RANGE * 0.8 * sin angle))"
        by blast
      have "repair_node static i s =
              Inr ((fst s)\<lparr>nodes := ?ns[i := (?ns ! i)\<lparr>pos_x := fst xy, pos_y := snd xy\<rparr>]\<rparr>,
                   True, snd ?r)"
        unfolding repair_node_def Let_def using iso cand
        by (simp only: list.size if_True if_False refl ch sum.case fst_conv snd_conv Some
              option.case)
      then have "repair_node static i s =
              Inr ((fst s)\<lparr>nodes := ?ns[i := (?ns ! i)
                     \<lparr>pos_x := clip (width (fst s)) (pos_x (?ns ! ?anchor) + COMM_RANGE * 0.8 * cos angle),
                      pos_y := clip (height (fst s)) (pos_y (?ns ! ?anchor) + COMM_RANGE * 0.8 * sin angle)\<rparr>]\<rparr>,
                   True, snd ?r)"
        by (simp only: xy fst_conv snd_conv)
      with iso mem show ?thesis by blast
    next
      case None
      show ?thesis
      proof (cases "fst (snd s)")
        case True
        have "repair_node static i s = Inr (fst s, fst (snd s), snd ?r)"
          unfolding repair_node_def Let_def using iso cand True
          by (simp only: list.size if_True if_False refl ch sum.case fst_conv snd_conv None
                option.case not_True_eq_False)
        with True show ?thesis by simp
      next
        case False
        let ?angle = "fst (uniform 0 (2 * pi) (snd ?r))"
        have "repair_node static i s =
              Inr ((fst s)\<lparr>nodes := ?ns[i := (?ns ! i)
                     \<lparr>pos_x := clip (width (fst s)) (pos_x (?ns ! ?anchor) + COMM_RANGE * cos ?angle * 0.99),
                      pos_y := clip (height (fst s)) (pos_y (?ns ! ?anchor) + COMM_RANGE * sin ?angle * 0.99)\<rparr>]\<rparr>,
                   True, snd (uniform 0 (2 * pi) (snd ?r)))"
          unfolding repair_node_def Let_def using iso cand False
          by (simp only: list.size if_True if_False refl ch sum.case fst_conv snd_conv None
                option.case not_False_eq_True)
        moreover have "COMM_RANGE * cos ?angle * 0.99 = COMM_RANGE * 0.99 * cos ?angle"
             "COMM_RANGE * sin ?angle * 0.99 = COMM_RANGE * 0.99 * sin ?angle"
          by simp_all
        ultimately have "repair_node static i s =
              Inr ((fst s)\<lparr>nodes := ?ns[i := (?ns ! i)
                     \<lparr>pos_x := clip (width (fst s)) (pos_x (?ns ! ?anchor) + COMM_RANGE * 0.99 * cos ?angle),
                      pos_y := clip (height (fst s)) (pos_y (?ns ! ?anchor) + COMM_RANGE * 0.99 * sin ?angle)\<rparr>]\<rparr>,
                   True, snd (uniform 0 (2 * pi) (snd ?r)))"
          by (simp only:)
        with iso mem show ?thesis by blast
      qed
    qed
  qed
qed

lemma create_nodes_Inr:
  "\<exists>eng' g'. create_nodes eng g = Inr (eng', g') \<and> settings eng' = settings eng"
proof -
  let ?c1 = "create_sinks eng (sink_positions eng)
               \<lparr>made = nodes eng, static_positions = [], next_id = 0, gen = g\<rparr>"
  obtain c2 where "create_mesh eng (nat (mesh_count eng)) ?c1 = Inr c2"
    using create_mesh_Inr by blast
  then show ?thesis
    by (simp add: create_nodes_def Let_def settings_def)
qed

lemma repair_node_Inr:
  "\<exists>s'. repair_node static i s = Inr s' \<and> settings (fst s') = settings (fst s)"
  using repair_node_cases [of static i s]
  by (elim disjE exE conjE) (simp_all add: settings_def)

lemma repair_pass_Inr:
  "\<exists>s'. repair_pass static rest s = Inr s' \<and> settings (fst s') = settings (fst s)"
proof (induction rest arbitrary: s)
  case Nil
  show ?case by simp
next
  case (Cons i rest)
  obtain s1 where s1: "repair_node static i s = Inr s1" "settings (fst s1) = settings (fst s)"
    using repair_node_Inr [of static i s] by blast
  show ?case
    using Cons.IH [of s1] s1 by simp
qed

lemma ensure_loop_Inr:
  "ensure_loop static eng g = Some r \<Longrightarrow> \<exists>eng' g'. r = Inr (eng', g') \<and> settings eng' = settings eng"
proof (induction rule: ensure_loop.raw_induct [rotated 1, consumes 1])
  case (1 loop static eng g r)
  let ?s0 = "(eng\<lparr>nodes := update_neighbors (nodes eng)\<rparr>, False, g)"
  obtain s where s: "repair_pass static static ?s0 = Inr s" "settings (fst s) = settings eng"
    using repair_pass_Inr [of static static ?s0] by (auto simp: settings_def)
  show ?case
  proof (cases "fst (snd s)")
    case True
    with 1(2) s(1) have "loop static (fst s) (snd (snd s)) = Some r" by simp
    from 1(1) [OF this] s(2) show ?thesis by simp
  next
    case False
    with 1(2) s(1) have "r = Inr (fst s, snd (snd s))" by simp
    with s(2) show ?thesis by simp
  qed
qed

text \<open>
  C9. Construction with invalid values fails fast with a descriptive error. The
  constructor checks nothing: for representable arguments it raises no error, and
  whenever it returns, the engine holds the counts, the dimensions and the minimum
  distance exactly as they were given, negative or not.
\<close>

theorem construction_checks_nothing:
  assumes "representable w h sp md"
  shows "SimulationEngine m k w h sp md g \<noteq> Some (Inl e)
   \<and> (\<forall>eng g'. SimulationEngine m k w h sp md g = Some (Inr (eng, g')) \<longrightarrow>
         mesh_count eng = m \<and> mobile_count eng = k \<and> width eng = w \<and> height eng = h
         \<and> MIN_DIST eng = md)"
proof -
  define sps where "sps = (case sp of
                  None \<Rightarrow> [(w * 0.33, h * 0.5), (w * 0.66, h * 0.5)]
                | Some ps \<Rightarrow> ps)"
  define eng0 where "eng0 = \<lparr>mesh_count = m, mobile_count = k, width = w, height = h,
     MIN_DIST = md, sink_positions = sps, nodes = []\<rparr>"
  have set0: "settings eng0 = (m, k, w, h, md)"
    by (simp add: settings_def eng0_def)
  obtain eng1 g1 where c: "create_nodes eng0 g = Inr (eng1, g1)" "settings eng1 = settings eng0"
    using create_nodes_Inr [of eng0 g] by blast
  define eng2 where "eng2 = eng1\<lparr>nodes := update_neighbors (nodes eng1)\<rparr>"
  have set2: "settings eng2 = (m, k, w, h, md)"
    using c(2) set0 by (simp add: eng2_def settings_def)
  have unfold: "SimulationEngine m k w h sp md g =
      (case ensure_each_has_neighbor eng2 g1 of
         None \<Rightarrow> None
       | Some (Inl e) \<Rightarrow> Some (Inl e)
       | Some (Inr r2) \<Rightarrow> Some (Inr ((fst r2)\<lparr>nodes := update_neighbors (nodes (fst r2))\<rparr>, snd r2)))"
    unfolding SimulationEngine_def Let_def sps_def [symmetric] eng0_def [symmetric]
    by (simp add: c(1) eng2_def)
  show ?thesis
  proof (cases "ensure_each_has_neighbor eng2 g1")
    case None
    then show ?thesis by (simp add: unfold)
  next
    case (Some r)
    then have "ensure_loop (static_nodes (nodes eng2)) eng2 g1 = Some r"
      by (simp add: ensure_each_has_neighbor_def)
    from ensure_loop_Inr [OF this] obtain eng3 g3 where
      r: "r = Inr (eng3, g3)" and "settings eng3 = settings eng2"
      by blast
    with set2 have "settings (eng3\<lparr>nodes := update_neighbors (nodes eng3)\<rparr>) = (m, k, w, h, md)"
      by (simp add: settings_def)
    with Some r show ?thesis
      by (auto simp: unfold settings_def)
  qed
qed

lemma hypot_less_iff: "0 \<le> r \<Longrightarrow> hypot dx dy < r \<longleftrightarrow> dx * dx + dy * dy < r * r"
proof -
  assume r: "0 \<le> r"
  have "hypot dx dy < r \<longleftrightarrow> sqrt (dx * dx + dy * dy) < sqrt (r * r)"
    using r by (simp add: hypot_def)
  also have "\<dots> \<longleftrightarrow> dx * dx + dy * dy < r * r"
    by (rule real_sqrt_less_iff)
  finally show ?thesis .
qed

lemma hypot_le_iff: "0 \<le> r \<Longrightarrow> hypot dx dy \<le> r \<longleftrightarrow> dx * dx + dy * dy \<le> r * r"
proof -
  assume r: "0 \<le> r"
  have "hypot dx dy \<le> r \<longleftrightarrow> sqrt (dx * dx + dy * dy) \<le> sqrt (r * r)"
    using r by (simp add: hypot_def)
  also have "\<dots> \<longleftrightarrow> dx * dx + dy * dy \<le> r * r"
    by (rule real_sqrt_le_iff)
  finally show ?thesis .
qed

lemma fifty: "(50::nat) = Suc 49"
  by simp


lemma uniform_quarter:
  "draws g = (\<lambda>_. 1 / 4) \<Longrightarrow> uniform 0 (2 * pi) g = (pi / 2, g\<lparr>used := used g + 1\<rparr>)"
  by (simp add: uniform_def)

lemma update_two:
  "update_neighbors [a, b] =
     (if hypot (pos_x a - pos_x b) (pos_y a - pos_y b) \<le> COMM_RANGE
      then [a\<lparr>neighbors := [1]\<rparr>, b\<lparr>neighbors := [0]\<rparr>]
      else [a\<lparr>neighbors := []\<rparr>, b\<lparr>neighbors := []\<rparr>])"
proof -
  have "[0 ..< length [a, b]] = [0, 1]" by (simp add: upt_conv_Cons)
  moreover have "[0 + 1 ..< length [x, y]] = [1]" "[1 + 1 ..< length [x, y]] = []" for x y :: node
    by (simp_all add: upt_conv_Cons)
  ultimately show ?thesis
    by (simp add: update_neighbors_def link_def Let_def del: upt_Suc)
qed

lemma place_sink_good:
  "0 < k \<Longrightarrow> placed = [] \<or> good_position (MIN_DIST eng) placed xy
   \<Longrightarrow> place_sink k eng pos placed xy g = (xy, g)"
  by (cases k) auto

lemma relocate_try_good:
  assumes "0 < k"
    and "list_all (\<lambda>other. node_id (nodes eng ! other) = node_id (nodes eng ! i)
           \<or> \<not> hypot (clip (width eng) (pos_x (nodes eng ! anchor)
                          + COMM_RANGE * 0.8 * cos (fst (uniform 0 (2 * pi) g)))
                        - pos_x (nodes eng ! other))
                      (clip (height eng) (pos_y (nodes eng ! anchor)
                          + COMM_RANGE * 0.8 * sin (fst (uniform 0 (2 * pi) g)))
                        - pos_y (nodes eng ! other))
                 < MIN_DIST eng) static"
  shows "relocate_try k eng static i anchor g =
           (Some (clip (width eng) (pos_x (nodes eng ! anchor)
                          + COMM_RANGE * 0.8 * cos (fst (uniform 0 (2 * pi) g))),
                  clip (height eng) (pos_y (nodes eng ! anchor)
                          + COMM_RANGE * 0.8 * sin (fst (uniform 0 (2 * pi) g)))),
            snd (uniform 0 (2 * pi) g))"
proof -
  from assms(1) obtain k' where "k = Suc k'" by (cases k) auto
  then show ?thesis
    using assms(2) by (simp only: relocate_try.simps Let_def if_True)
qed

lemma create_ok:
  "create_nodes \<lparr>mesh_count = 0, mobile_count = 0, width = - 200, height = 200,
     MIN_DIST = 14, sink_positions = [(- 66, 100), (- 132, 100)], nodes = []\<rparr> rng_quarter
   = Inr (two_sinks (- 66) 100 (- 132) 100 [] [], rng_quarter)"
  by (simp add: create_nodes_def Let_def place_sink_good good_position_def hypot_less_iff
        sink_at_def Node_def two_sinks_def)

lemma pass_one:
  "repair_pass [0, 1] [0, 1] (two_sinks (- 66) 100 (- 132) 100 [] [], False, rng_quarter)
     = Inr (two_sinks 0 124 0 148 [] [], True, rng_quarter\<lparr>used := 4\<rparr>)"
  by (simp add: repair_node_def Let_def choice_def relocate_try_good uniform_quarter
        hypot_less_iff clip_def COMM_RANGE_def sink_at_def Node_def two_sinks_def rng_quarter_def)

lemma pass_two:
  "repair_pass [0, 1] [0, 1] (two_sinks 0 124 0 148 [1] [0], False, g)
     = Inr (two_sinks 0 124 0 148 [1] [0], False, g)"
  by (simp add: repair_node_def Let_def sink_at_def Node_def two_sinks_def)

lemma update_two_sinks:
  "update_neighbors (nodes (two_sinks (- 66) 100 (- 132) 100 n0 n1))
     = nodes (two_sinks (- 66) 100 (- 132) 100 [] [])"
  "update_neighbors (nodes (two_sinks 0 124 0 148 n0 n1)) = nodes (two_sinks 0 124 0 148 [1] [0])"
  by (simp_all add: update_two hypot_le_iff COMM_RANGE_def two_sinks_def sink_at_def Node_def)

lemma two_sinks_nodes:
  "(two_sinks x0 y0 x1 y1 n0 n1)\<lparr>nodes := nodes (two_sinks a0 b0 a1 b1 m0 m1)\<rparr>
     = two_sinks a0 b0 a1 b1 m0 m1"
  by (simp add: two_sinks_def)

lemma static_two_sinks: "static_nodes (nodes (two_sinks x0 y0 x1 y1 n0 n1)) = [0, 1]"
  by (simp add: static_nodes_def two_sinks_def sink_at_def Node_def upt_conv_Cons)

lemma construction_clamps:
  "SimulationEngine 0 0 (- 200) 200 None 14 rng_quarter
     = Some (Inr (two_sinks 0 124 0 148 [1] [0], rng_quarter\<lparr>used := 4\<rparr>))"
proof -
  have loop2: "ensure_loop [0, 1] (two_sinks 0 124 0 148 [] []) (rng_quarter\<lparr>used := 4\<rparr>)
                 = Some (Inr (two_sinks 0 124 0 148 [1] [0], rng_quarter\<lparr>used := 4\<rparr>))"
    by (subst ensure_loop.simps)
       (simp only: update_two_sinks two_sinks_nodes pass_two sum.case fst_conv snd_conv if_False)
  have loop1: "ensure_loop [0, 1] (two_sinks (- 66) 100 (- 132) 100 [] []) rng_quarter
                 = Some (Inr (two_sinks 0 124 0 148 [1] [0], rng_quarter\<lparr>used := 4\<rparr>))"
    by (subst ensure_loop.simps)
       (simp only: update_two_sinks two_sinks_nodes pass_one sum.case fst_conv snd_conv if_True
          loop2)
  have "[(- 200 * 0.33, 200 * 0.5), (- 200 * 0.66, 200 * 0.5)]
          = ([(- 66, 100), (- 132, 100)] :: (real \<times> real) list)"
    by simp
  then show ?thesis
    unfolding SimulationEngine_def Let_def
    by (simp only: option.case create_ok sum.case fst_conv snd_conv ensure_each_has_neighbor_def
          update_two_sinks two_sinks_nodes static_two_sinks loop1)
qed

theorem construction_checks_nothing_witness:
  "representable (- 200) 200 None 14
   \<and> SimulationEngine 0 0 (- 200) 200 None 14 rng_quarter
     = Some (Inr (two_sinks 0 124 0 148 [1] [0], rng_quarter\<lparr>used := 4\<rparr>))
   \<and> width (two_sinks 0 124 0 148 [1] [0]) = - 200
   \<and> map pos_x (nodes (two_sinks 0 124 0 148 [1] [0])) = [0, 0]"
proof -
  have r: "representable (- 200) 200 None 14"
    by (simp add: representable_def within_double_def)
  have "map pos_x (nodes (two_sinks 0 124 0 148 [1] [0])) = [0, 0]"
    by (simp add: two_sinks_def sink_at_def Node_def)
  with r construction_clamps
    construction_checks_nothing [OF r, where m = 0 and k = 0 and g = rng_quarter
       and e = IndexError]
  show ?thesis by blast
qed

theorem negative_sizes_accepted:
  "SimulationEngine (- 3) (- 1) (- 200) (- 200) (Some []) 14 rng_quarter
     = Some (Inr (\<lparr>mesh_count = - 3, mobile_count = - 1, width = - 200, height = - 200,
                    MIN_DIST = 14, sink_positions = [], nodes = []\<rparr>, rng_quarter))"
  by (simp add: SimulationEngine_def create_nodes_def ensure_each_has_neighbor_def
        static_nodes_def update_neighbors_def ensure_loop.simps)

section \<open>Connectivity repair\<close>











































end
